theory Spec2Isabelle
  imports Main "HOL-Library.Multiset"
begin

section \<open>Errors\<close>

text \<open>
  Go compares error values by identity (\<open>err != ErrorFileTooSmallToBeDICOM\<close>).  The two
  sentinels of \<open>discoverer.go\<close> and the sentinels of the standard library that the code
  can meet are constructors of their own; every other error value is \<open>OtherError\<close> with
  the text its \<open>Error()\<close> method returns.
\<close>

datatype error =
    ErrorFileTooSmallToBeDICOM
  | ErrorInvalidMagicNumber
  | EOF
  | ErrInvalid
  | ErrClosed
  | OtherError string

fun error_message :: "error \<Rightarrow> string" where
  "error_message ErrorFileTooSmallToBeDICOM = ''file too small to be a valid DICOM''"
| "error_message ErrorInvalidMagicNumber = ''invalid magic number''"
| "error_message EOF = ''EOF''"
| "error_message ErrInvalid = ''invalid argument''"
| "error_message ErrClosed = ''file already closed''"
| "error_message (OtherError s) = s"

section \<open>Files and handles\<close>

text \<open>
  What \<open>os.Open\<close> finds at a path: nothing it can open (with the error it returns), or
  a byte source with its content and, possibly, an I/O fault that every read reports (a
  directory reached through a symbolic link, a failing device).  A byte is a \<open>char\<close>.
\<close>

datatype fs_entry = Missing error | Present string "error option"

type_synonym filesystem = "string \<Rightarrow> fs_entry"

text \<open>
  An \<open>*os.File\<close> is an index into the table of the files opened so far (\<open>None\<close> is the
  nil pointer).  Each entry keeps the path, the bytes, the read fault, the read position
  and whether the file is still open.
\<close>

type_synonym handle = nat

record os_file =
  f_path :: string
  f_data :: string
  f_fault :: "error option"
  f_pos :: nat
  f_open :: bool

type_synonym os_state = "os_file list"

definition os_Open :: "filesystem \<Rightarrow> string \<Rightarrow> os_state \<Rightarrow> (error + handle) \<times> os_state" where
  "os_Open fs path st =
     (case fs path of
        Missing err \<Rightarrow> (Inl err, st)
      | Present bytes fault \<Rightarrow>
          (Inr (length st),
           st @ [\<lparr>f_path = path, f_data = bytes, f_fault = fault, f_pos = 0, f_open = True\<rparr>]))"

text \<open>
  \<open>file.Read(b)\<close> with \<open>len(b) = k\<close>: the number of bytes read, the buffer afterwards
  (a fresh zeroed buffer of length \<open>k\<close> whose first \<open>n\<close> bytes were filled) and the error.
  At the end of the file a read of a non-empty buffer returns \<open>0, io.EOF\<close>.
\<close>

definition File_Read ::
    "handle option \<Rightarrow> nat \<Rightarrow> os_state \<Rightarrow> (nat \<times> string \<times> error option) \<times> os_state" where
  "File_Read file k st =
     (case file of
        None \<Rightarrow> ((0, replicate k (CHR 0x00), Some ErrInvalid), st)
      | Some h \<Rightarrow>
          if \<not> h < length st then ((0, replicate k (CHR 0x00), Some ErrInvalid), st)
          else if \<not> f_open (st ! h) then ((0, replicate k (CHR 0x00), Some ErrClosed), st)
          else (case f_fault (st ! h) of
                  Some err \<Rightarrow> ((0, replicate k (CHR 0x00), Some err), st)
                | None \<Rightarrow>
                    if k = 0 then ((0, [], None), st)
                    else if length (f_data (st ! h)) \<le> f_pos (st ! h)
                    then ((0, replicate k (CHR 0x00), Some EOF), st)
                    else
                      (let n = min k (length (f_data (st ! h)) - f_pos (st ! h));
                           bytes = take n (drop (f_pos (st ! h)) (f_data (st ! h)))
                       in ((n, bytes @ replicate (k - n) (CHR 0x00), None),
                           st[h := (st ! h)\<lparr>f_pos := f_pos (st ! h) + n\<rparr>]))))"

text \<open>\<open>file.Seek(offset, io.SeekStart)\<close>: the new offset and the error.\<close>

definition File_Seek ::
    "handle option \<Rightarrow> nat \<Rightarrow> os_state \<Rightarrow> (nat \<times> error option) \<times> os_state" where
  "File_Seek file offset st =
     (case file of
        None \<Rightarrow> ((0, Some ErrInvalid), st)
      | Some h \<Rightarrow>
          if \<not> h < length st then ((0, Some ErrInvalid), st)
          else if \<not> f_open (st ! h) then ((0, Some ErrClosed), st)
          else ((offset, None), st[h := (st ! h)\<lparr>f_pos := offset\<rparr>]))"

text \<open>
  \<open>file.Close()\<close>: on the nil pointer it returns \<open>ErrInvalid\<close> and does nothing, on a
  closed file it returns \<open>ErrClosed\<close>.
\<close>

definition File_Close :: "handle option \<Rightarrow> os_state \<Rightarrow> error option \<times> os_state" where
  "File_Close file st =
     (case file of
        None \<Rightarrow> (Some ErrInvalid, st)
      | Some h \<Rightarrow>
          if \<not> h < length st then (Some ErrInvalid, st)
          else if \<not> f_open (st ! h) then (Some ErrClosed, st)
          else (None, st[h := (st ! h)\<lparr>f_open := False\<rparr>]))"

text \<open>Whether a handle is an open file, and where its read position is.\<close>

definition handle_open :: "os_state \<Rightarrow> handle option \<Rightarrow> bool" where
  "handle_open st file =
     (case file of None \<Rightarrow> False | Some h \<Rightarrow> h < length st \<and> f_open (st ! h))"

definition handle_pos :: "os_state \<Rightarrow> handle option \<Rightarrow> nat option" where
  "handle_pos st file =
     (case file of
        None \<Rightarrow> None
      | Some h \<Rightarrow> if h < length st then Some (f_pos (st ! h)) else None)"

section \<open>The format validator (\<open>isValidDICOM\<close>, the same text in both discoverers)\<close>

definition isValidDICOM ::
    "filesystem \<Rightarrow> string \<Rightarrow> os_state \<Rightarrow> (bool \<times> handle option \<times> error option) \<times> os_state" where
  "isValidDICOM fs path st =
     (case os_Open fs path st of
        (Inl err, st1) \<Rightarrow>
          (let (_, st2) = File_Close None st1 in ((False, None, Some err), st2))
      | (Inr file, st1) \<Rightarrow>
          (case File_Read (Some file) 132 st1 of
             ((n, header, Some err), st2) \<Rightarrow>
               (let (_, st3) = File_Close (Some file) st2 in ((False, None, Some err), st3))
           | ((n, header, None), st2) \<Rightarrow>
               if n < 132 then
                 (let (_, st3) = File_Close (Some file) st2
                  in ((False, None, Some ErrorFileTooSmallToBeDICOM), st3))
               else if take 4 (drop 128 header) \<noteq> ''DICM'' then
                 (let (_, st3) = File_Close (Some file) st2
                  in ((False, None, Some ErrorInvalidMagicNumber), st3))
               else
                 (let (_, st3) = File_Seek (Some file) 0 st2
                  in ((True, Some file, None), st3))))"

section \<open>Validated files and parsed records\<close>

text \<open>\<open>DicomFile\<close> of the discoverers, \<open>dicom.Dataset\<close> and \<open>ParsedDicomFile\<close> of the parser.\<close>

record DicomFile =
  Path :: string
  Handle :: "handle option"

record Dataset =
  Elements :: "string list"

record ParsedDicomFile =
  Path :: string
  Dataset :: Dataset
  handle :: "handle option"
  isOpen :: bool

definition GetHandle ::
    "filesystem \<Rightarrow> ParsedDicomFile \<Rightarrow> os_state
      \<Rightarrow> (handle option \<times> error option) \<times> ParsedDicomFile \<times> os_state" where
  "GetHandle fs p st =
     (if \<not> isOpen p then
        (case os_Open fs (Path p) st of
           (Inl err, st1) \<Rightarrow> ((None, Some err), p, st1)
         | (Inr h, st1) \<Rightarrow>
             (let p1 = p\<lparr>handle := Some h\<rparr>;
                  p2 = p1\<lparr>isOpen := True\<rparr>
              in ((handle p2, None), p2, st1)))
      else ((handle p, None), p, st))"

definition Close :: "ParsedDicomFile \<Rightarrow> os_state \<Rightarrow> error option \<times> ParsedDicomFile \<times> os_state" where
  "Close p st =
     (if \<not> isOpen p then (None, p, st)
      else
        (let p1 = p\<lparr>isOpen := False\<rparr>;
             (err, st1) = File_Close (handle p1) st
         in (err, p1, st1)))"

section \<open>The error aggregator (\<open>errors/multierror.go\<close>)\<close>

record MultiError =
  errs :: "error list"

definition New :: MultiError where
  "New = \<lparr>errs = []\<rparr>"

text \<open>\<open>Add\<close> takes an \<open>error\<close> interface value: \<open>None\<close> is nil.\<close>

definition Add :: "MultiError \<Rightarrow> error option \<Rightarrow> MultiError" where
  "Add m err = (case err of None \<Rightarrow> m | Some e \<Rightarrow> m\<lparr>errs := errs m @ [e]\<rparr>)"

text \<open>The \<open>strings.Builder\<close> of \<open>Error\<close> is the string written so far.\<close>

definition Error :: "MultiError \<Rightarrow> string" where
  "Error m =
     (if length (errs m) = 0 then []
      else foldl (\<lambda>sb err. sb @ [CHR 0x0A] @ ''- '' @ error_message err)
             ''Multiple errors occurred:'' (errs m))"

definition Errors :: "MultiError \<Rightarrow> error list" where
  "Errors m = errs m"

definition HasErrors :: "MultiError \<Rightarrow> bool" where
  "HasErrors m = (length (errs m) > 0)"

section \<open>The drain loop of aggregate discovery (\<open>DiscoverDICOMFiles\<close> in \<open>discoverer.go\<close>)\<close>

text \<open>
  One iteration of the \<open>for { select { ... } }\<close> loop receives from one of the two
  channels.  \<open>Recv_errCh err\<close> is the case \<open>err := <-errCh\<close> (nil, \<open>None\<close>, once the
  channel is closed and empty); \<open>Recv_resultCh file\<close> is \<open>file, ok := <-resultCh\<close>
  (\<open>None\<close> when \<open>ok\<close> is false).  An iteration either returns the result of
  \<open>DiscoverDICOMFiles\<close> (\<open>Inl\<close>) or goes on with the updated locals.
\<close>

datatype select_case = Recv_errCh "error option" | Recv_resultCh "DicomFile option"

record drain_state =
  dicomFiles :: "DicomFile list"
  multiErr :: MultiError

definition drain_start :: drain_state where
  "drain_start = \<lparr>dicomFiles = [], multiErr = New\<rparr>"

fun drain_step ::
    "select_case \<Rightarrow> drain_state \<Rightarrow> (DicomFile list \<times> MultiError option) + drain_state" where
  "drain_step (Recv_errCh err) s =
     (if err \<noteq> Some ErrorFileTooSmallToBeDICOM \<and> err \<noteq> Some ErrorInvalidMagicNumber
      then Inr (s\<lparr>multiErr := Add (multiErr s) err\<rparr>)
      else Inr s)"
| "drain_step (Recv_resultCh None) s =
     (if HasErrors (multiErr s) then Inl (dicomFiles s, Some (multiErr s))
      else Inl (dicomFiles s, None))"
| "drain_step (Recv_resultCh (Some file)) s = Inr (s\<lparr>dicomFiles := dicomFiles s @ [file]\<rparr>)"

text \<open>
  The loop over the receptions it makes, in order: the value \<open>DiscoverDICOMFiles\<close>
  returns, or \<open>None\<close> while it is still waiting in \<open>select\<close>.
\<close>

fun drain_loop ::
    "select_case list \<Rightarrow> drain_state \<Rightarrow> (DicomFile list \<times> MultiError option) option" where
  "drain_loop [] s = None"
| "drain_loop (c # cs) s =
     (case drain_step c s of Inl r \<Rightarrow> Some r | Inr s' \<Rightarrow> drain_loop cs s')"

text \<open>What a sequence of receptions carried: the files, and the real errors.\<close>

fun received_files :: "select_case list \<Rightarrow> DicomFile list" where
  "received_files [] = []"
| "received_files (Recv_resultCh (Some file) # cs) = file # received_files cs"
| "received_files (c # cs) = received_files cs"

definition ignorable :: "error \<Rightarrow> bool" where
  "ignorable e = (e = ErrorFileTooSmallToBeDICOM \<or> e = ErrorInvalidMagicNumber)"

fun received_real_errors :: "select_case list \<Rightarrow> error list" where
  "received_real_errors [] = []"
| "received_real_errors (Recv_errCh (Some e) # cs) =
     (if ignorable e then received_real_errors cs else e # received_real_errors cs)"
| "received_real_errors (c # cs) = received_real_errors cs"

text \<open>The rendering the claim describes: a header line, then one bullet per error.\<close>

definition bullet_list :: "error list \<Rightarrow> string" where
  "bullet_list es =
     ''Multiple errors occurred:'' @ concat (map (\<lambda>e. [CHR 0x0A] @ ''- '' @ error_message e) es)"

section \<open>The decoder and the decode worker (\<open>parser.go\<close>)\<close>

text \<open>
  The decoding library is outside the repository.  A decoder is any function from the
  unread bytes of the source to its outcome and the number of bytes it consumed: a
  dataset, an error, or a panic.  A panic carries a non-nil value that either is an
  \<open>error\<close> or is not (then with its \<open>%v\<close> text).
\<close>

datatype panic_value = Panic_error error | Panic_other string

datatype decode_outcome = Parsed Dataset | Failed error | Panicked panic_value

type_synonym decoder = "string \<Rightarrow> decode_outcome \<times> nat"

definition ParseUntilEOF ::
    "decoder \<Rightarrow> handle option \<Rightarrow> os_state \<Rightarrow> decode_outcome \<times> os_state" where
  "ParseUntilEOF parse file st =
     (case file of
        None \<Rightarrow> (Failed ErrInvalid, st)
      | Some h \<Rightarrow>
          if \<not> h < length st then (Failed ErrInvalid, st)
          else if \<not> f_open (st ! h) then (Failed ErrClosed, st)
          else (case f_fault (st ! h) of
                  Some err \<Rightarrow> (Failed err, st)
                | None \<Rightarrow>
                    (let (outcome, k) = parse (drop (f_pos (st ! h)) (f_data (st ! h)));
                         n = min k (length (f_data (st ! h)) - f_pos (st ! h))
                     in (outcome, st[h := (st ! h)\<lparr>f_pos := f_pos (st ! h) + n\<rparr>]))))"

text \<open>
  \<open>saveParseUntilEOF\<close>: the deferred function recovers a panic and overwrites the named
  result \<open>err\<close>; \<open>dataset\<close> is then still the zero value.
\<close>

definition saveParseUntilEOF ::
    "decoder \<Rightarrow> handle option \<Rightarrow> os_state \<Rightarrow> (Dataset \<times> error option) \<times> os_state" where
  "saveParseUntilEOF parse file st =
     (case ParseUntilEOF parse file st of
        (Panicked r, st1) \<Rightarrow>
          (case r of
             Panic_error panicErr \<Rightarrow> ((\<lparr>Elements = []\<rparr>, Some panicErr), st1)
           | Panic_other v \<Rightarrow>
               ((\<lparr>Elements = []\<rparr>, Some (OtherError (''panic during DICOM parsing: '' @ v))), st1))
      | (Failed err, st1) \<Rightarrow> ((\<lparr>Elements = []\<rparr>, Some err), st1)
      | (Parsed dataset, st1) \<Rightarrow> ((dataset, None), st1))"

text \<open>
  What a worker does with the channels and the handles, in program order.  A worker's
  loop body computes, then performs these operations one after the other.
\<close>

datatype 'r worker_op = Send_errCh error | Send_resultCh 'r | Close_handle "handle option"

fun run_op :: "'r worker_op \<Rightarrow> os_state \<Rightarrow> os_state" where
  "run_op (Close_handle file) st = snd (File_Close file st)"
| "run_op _ st = st"

text \<open>The body of the \<open>for file := range fileCh\<close> loop of \<open>dicomParserWorker\<close>.\<close>

definition dicomParserWorker_body ::
    "decoder \<Rightarrow> DicomFile \<Rightarrow> os_state \<Rightarrow> ParsedDicomFile worker_op list \<times> os_state" where
  "dicomParserWorker_body parse file st =
     (case saveParseUntilEOF parse (Handle file) st of
        ((dataset, Some err), st1) \<Rightarrow> ([Send_errCh err, Close_handle (Handle file)], st1)
      | ((dataset, None), st1) \<Rightarrow>
          ([Send_resultCh \<lparr>Path = DicomFile.Path file, Dataset = dataset,
                           handle = Handle file, isOpen = True\<rparr>], st1))"

text \<open>
  One worker on the files it receives from \<open>fileCh\<close>, in the order it receives them:
  everything it did, and the files afterwards.
\<close>

fun dicomParserWorker ::
    "decoder \<Rightarrow> DicomFile list \<Rightarrow> os_state \<Rightarrow> ParsedDicomFile worker_op list \<times> os_state" where
  "dicomParserWorker parse [] st = ([], st)"
| "dicomParserWorker parse (file # files) st =
     (let (ops, st1) = dicomParserWorker_body parse file st;
          st2 = fold run_op ops st1;
          (rest, st3) = dicomParserWorker parse files st2
      in (ops @ rest, st3))"

text \<open>What the claim expects of the worker for one file, from the decoder's outcome.\<close>

fun outcome_ops :: "DicomFile \<Rightarrow> decode_outcome \<Rightarrow> ParsedDicomFile worker_op list" where
  "outcome_ops file (Parsed dataset) =
     [Send_resultCh \<lparr>Path = DicomFile.Path file, Dataset = dataset,
                     handle = Handle file, isOpen = True\<rparr>]"
| "outcome_ops file (Failed err) = [Send_errCh err, Close_handle (Handle file)]"
| "outcome_ops file (Panicked (Panic_error err)) = [Send_errCh err, Close_handle (Handle file)]"
| "outcome_ops file (Panicked (Panic_other v)) =
     [Send_errCh (OtherError (''panic during DICOM parsing: '' @ v)), Close_handle (Handle file)]"

fun is_Parsed :: "decode_outcome \<Rightarrow> bool" where
  "is_Parsed (Parsed dataset) = True"
| "is_Parsed _ = False"

section \<open>The directory walk (\<open>fileWalker\<close>, the same text in both discoverers)\<close>

text \<open>
  What \<open>filepath.WalkDir\<close> meets below the root: an entry that is not a directory, or
  a directory with the error of \<open>os.ReadDir\<close> on it (if any) and the entries that
  \<open>os.ReadDir\<close> returned.  At the root, \<open>os.Lstat\<close> either fails or yields the root
  entry.
\<close>

datatype fs_node = Regular string | Directory string "error option" "fs_node list"

datatype walk_root = Lstat_fails error | Lstat_ok fs_node

fun IsDir :: "fs_node \<Rightarrow> bool" where
  "IsDir (Regular name) = False"
| "IsDir (Directory name rerr entries) = True"

fun Name :: "fs_node \<Rightarrow> string" where
  "Name (Regular name) = name"
| "Name (Directory name rerr entries) = name"

text \<open>\<open>filepath.Join\<close> of a clean, non-empty path and one name.\<close>

definition Join :: "string \<Rightarrow> string \<Rightarrow> string" where
  "Join path name = path @ ''/'' @ name"

text \<open>
  The walker's channel operations in program order, and how a function call or a
  goroutine ends: it returns, or it panics (nothing in this code recovers a panic of the
  walker, so the panic ends the process).
\<close>

datatype walker_op = Walker_send_errCh error | Walker_send_fileCh string | Walker_close_fileCh

datatype callback_result = Returns "error option" | Panics

datatype goroutine_end = Goroutine_returns | Goroutine_panics

text \<open>
  The function literal that \<open>fileWalker\<close> passes to \<open>filepath.WalkDir\<close>.  \<open>d\<close> is an
  interface value; calling \<open>d.IsDir()\<close> on nil is a nil dereference.
\<close>

definition walk_callback ::
    "string \<Rightarrow> fs_node option \<Rightarrow> error option \<Rightarrow> walker_op list \<times> callback_result" where
  "walk_callback path d err =
     (let sent = (case err of Some e \<Rightarrow> [Walker_send_errCh e] | None \<Rightarrow> [])
      in case d of
           None \<Rightarrow> (sent, Panics)
         | Some entry \<Rightarrow>
             if \<not> IsDir entry then (sent @ [Walker_send_fileCh path], Returns None)
             else (sent, Returns None))"

text \<open>
  \<open>filepath.WalkDir\<close> and its helper \<open>walkDir\<close> of the standard library, for a callback
  that returns nil or an error (an error stops the walk; the special values \<open>SkipDir\<close> and
  \<open>SkipAll\<close>, which this callback never returns, are not distinguished).  The callback is
  called on every entry; on a directory whose \<open>os.ReadDir\<close> fails it is called a second
  time with that error, and the walk goes on with the entries that were read.  When
  \<open>os.Lstat\<close> of the root fails, the callback is called once with a nil entry.
\<close>

fun walkDir ::
    "(string \<Rightarrow> fs_node option \<Rightarrow> error option \<Rightarrow> walker_op list \<times> callback_result)
      \<Rightarrow> string \<Rightarrow> fs_node \<Rightarrow> walker_op list \<times> callback_result"
and walkDir_entries ::
    "(string \<Rightarrow> fs_node option \<Rightarrow> error option \<Rightarrow> walker_op list \<times> callback_result)
      \<Rightarrow> string \<Rightarrow> fs_node list \<Rightarrow> walker_op list \<times> callback_result" where
  "walkDir fn path (Regular name) = fn path (Some (Regular name)) None"
| "walkDir fn path (Directory name rerr entries) =
     (case fn path (Some (Directory name rerr entries)) None of
        (ops1, Returns None) \<Rightarrow>
          (case rerr of
             None \<Rightarrow>
               (case walkDir_entries fn path entries of (ops3, r) \<Rightarrow> (ops1 @ ops3, r))
           | Some err \<Rightarrow>
               (case fn path (Some (Directory name rerr entries)) (Some err) of
                  (ops2, Returns None) \<Rightarrow>
                    (case walkDir_entries fn path entries of
                       (ops3, r) \<Rightarrow> (ops1 @ ops2 @ ops3, r))
                | (ops2, r) \<Rightarrow> (ops1 @ ops2, r)))
      | (ops1, r) \<Rightarrow> (ops1, r))"
| "walkDir_entries fn path [] = ([], Returns None)"
| "walkDir_entries fn path (d1 # ds) =
     (case walkDir fn (Join path (Name d1)) d1 of
        (ops1, Returns None) \<Rightarrow>
          (case walkDir_entries fn path ds of (ops2, r) \<Rightarrow> (ops1 @ ops2, r))
      | (ops1, r) \<Rightarrow> (ops1, r))"

definition WalkDir ::
    "string \<Rightarrow> walk_root
      \<Rightarrow> (string \<Rightarrow> fs_node option \<Rightarrow> error option \<Rightarrow> walker_op list \<times> callback_result)
      \<Rightarrow> walker_op list \<times> callback_result" where
  "WalkDir root tree fn =
     (case tree of
        Lstat_fails err \<Rightarrow> fn root None (Some err)
      | Lstat_ok info \<Rightarrow> walkDir fn root info)"

text \<open>
  \<open>fileWalker\<close>: everything the goroutine does on its two channels, and how it ends.
\<close>

definition fileWalker :: "string \<Rightarrow> walk_root \<Rightarrow> walker_op list \<times> goroutine_end" where
  "fileWalker dir tree =
     (case WalkDir dir tree walk_callback of
        (ops, Panics) \<Rightarrow> (ops, Goroutine_panics)
      | (ops, Returns err) \<Rightarrow>
          (ops @ (case err of Some e \<Rightarrow> [Walker_send_errCh e] | None \<Rightarrow> [])
               @ [Walker_close_fileCh],
           Goroutine_returns))"

text \<open>
  The paths of all entries below a node that are not directories, in the order of the
  walk, and the paths among a walker's operations.
\<close>

fun file_paths :: "string \<Rightarrow> fs_node \<Rightarrow> string list"
and file_paths_entries :: "string \<Rightarrow> fs_node list \<Rightarrow> string list" where
  "file_paths path (Regular name) = [path]"
| "file_paths path (Directory name rerr entries) = file_paths_entries path entries"
| "file_paths_entries path [] = []"
| "file_paths_entries path (d1 # ds) =
     file_paths (Join path (Name d1)) d1 @ file_paths_entries path ds"

fun sent_paths :: "walker_op list \<Rightarrow> string list" where
  "sent_paths [] = []"
| "sent_paths (Walker_send_fileCh path # ops) = path # sent_paths ops"
| "sent_paths (w # ops) = sent_paths ops"

section \<open>Channels\<close>

text \<open>
  A buffered channel: what is in its buffer, whether it was closed, and its capacity.
  A receive takes the oldest value; on an empty channel it yields the zero value with
  \<open>ok = false\<close> (\<open>None\<close> here) when the channel is closed, and cannot proceed otherwise.
  A send appends when there is room, cannot proceed when the buffer is full, and panics
  on a closed channel.
\<close>

record 'a chan =
  buf :: "'a list"
  closed :: bool
  cap :: nat

definition make_chan :: "nat \<Rightarrow> 'a chan" where
  "make_chan n = \<lparr>buf = [], closed = False, cap = n\<rparr>"

definition recv :: "'a chan \<Rightarrow> ('a option \<times> 'a chan) option" where
  "recv c =
     (case buf c of
        x # xs \<Rightarrow> Some (Some x, c\<lparr>buf := xs\<rparr>)
      | [] \<Rightarrow> if closed c then Some (None, c) else None)"

datatype 'a send_result = Sent "'a chan" | Send_blocks | Send_panics

definition send :: "'a \<Rightarrow> 'a chan \<Rightarrow> 'a send_result" where
  "send x c =
     (if closed c then Send_panics
      else if length (buf c) < cap c then Sent (c\<lparr>buf := buf c @ [x]\<rparr>)
      else Send_blocks)"

definition close_chan :: "'a chan \<Rightarrow> 'a chan" where
  "close_chan c = c\<lparr>closed := True\<rparr>"

text \<open>
  How far a \<open>for\<close> loop around a \<open>select\<close> got on a given sequence of choices: it left the
  loop, it is back in \<open>select\<close> with no choice left to look at, or the next choice names a
  case that cannot proceed (a choice \<open>select\<close> would not make).
\<close>

datatype loop_status = Loop_exited | Loop_in_select | Case_not_ready

section \<open>The error collector of the consumer bridge (\<open>discoveryModel.discoverFiles\<close>)\<close>

text \<open>
  The first goroutine of \<open>discoverFiles\<close>: its two locals, the two error channels it
  receives from, and the list that \<open>addDiscoveryError\<close> appends to (under
  \<open>discoveryErrorMutex\<close>, which only this goroutine takes).
\<close>

record error_collector =
  discoveryResult_Errors :: "error chan"
  parseResults_Errors :: "error chan"
  discoveryFinished :: bool
  parseFinished :: bool
  discoveryErrors :: "error list"

datatype collector_case = Case_discoveryResult_Errors | Case_parseResults_Errors

definition addDiscoveryError :: "error \<Rightarrow> error_collector \<Rightarrow> error_collector" where
  "addDiscoveryError err s = s\<lparr>discoveryErrors := discoveryErrors s @ [err]\<rparr>"

fun error_collector_loop ::
    "collector_case list \<Rightarrow> error_collector \<Rightarrow> loop_status \<times> error_collector" where
  "error_collector_loop [] s =
     (if \<not> discoveryFinished s \<and> \<not> parseFinished s then (Loop_in_select, s)
      else (Loop_exited, s))"
| "error_collector_loop (Case_discoveryResult_Errors # cs) s =
     (if \<not> discoveryFinished s \<and> \<not> parseFinished s then
        (case recv (discoveryResult_Errors s) of
           None \<Rightarrow> (Case_not_ready, s)
         | Some (None, ch) \<Rightarrow>
             error_collector_loop cs (s\<lparr>discoveryResult_Errors := ch, discoveryFinished := True\<rparr>)
         | Some (Some err, ch) \<Rightarrow>
             error_collector_loop cs (addDiscoveryError err (s\<lparr>discoveryResult_Errors := ch\<rparr>)))
      else (Loop_exited, s))"
| "error_collector_loop (Case_parseResults_Errors # cs) s =
     (if \<not> discoveryFinished s \<and> \<not> parseFinished s then
        (case recv (parseResults_Errors s) of
           None \<Rightarrow> (Case_not_ready, s)
         | Some (None, ch) \<Rightarrow>
             error_collector_loop cs (s\<lparr>parseResults_Errors := ch, parseFinished := True\<rparr>)
         | Some (Some err, ch) \<Rightarrow>
             error_collector_loop cs (addDiscoveryError err (s\<lparr>parseResults_Errors := ch\<rparr>)))
      else (Loop_exited, s))"

section \<open>The streaming consumer (\<open>main\<close> on the channels of both stages)\<close>

text \<open>
  The locals of \<open>main\<close>, the three channels it receives from, the table of files (it
  closes each parsed file) and the lines it wrote (path and number of elements).
\<close>

record streaming_main =
  parsingResult_Files :: "ParsedDicomFile chan"
  parsingResult_Errors :: "error chan"
  discoveryResult_Errors_main :: "error chan"
  parsedCount :: nat
  errorCount :: nat
  filesClosed :: bool
  discoveryErrorsClosed :: bool
  parsingErrorsClosed :: bool
  written :: "(string \<times> nat) list"
  files_table :: os_state

datatype main_case = Case_Files | Case_parsing_Errors | Case_discovery_Errors

definition main_running :: "streaming_main \<Rightarrow> bool" where
  "main_running s = (\<not> filesClosed s \<or> \<not> discoveryErrorsClosed s \<or> \<not> parsingErrorsClosed s)"

fun main_loop :: "main_case list \<Rightarrow> streaming_main \<Rightarrow> loop_status \<times> streaming_main" where
  "main_loop [] s = (if main_running s then (Loop_in_select, s) else (Loop_exited, s))"
| "main_loop (Case_Files # cs) s =
     (if main_running s then
        (case recv (parsingResult_Files s) of
           None \<Rightarrow> (Case_not_ready, s)
         | Some (None, ch) \<Rightarrow> main_loop cs (s\<lparr>parsingResult_Files := ch, filesClosed := True\<rparr>)
         | Some (Some parsedFile, ch) \<Rightarrow>
             (let (err, parsedFile', table) = Close parsedFile (files_table s)
              in main_loop cs
                   (s\<lparr>parsingResult_Files := ch,
                      parsedCount := parsedCount s + 1,
                      written := written s @
                        [(ParsedDicomFile.Path parsedFile,
                          length (Elements (Dataset parsedFile)))],
                      files_table := table\<rparr>)))
      else (Loop_exited, s))"
| "main_loop (Case_parsing_Errors # cs) s =
     (if main_running s then
        (case recv (parsingResult_Errors s) of
           None \<Rightarrow> (Case_not_ready, s)
         | Some (None, ch) \<Rightarrow>
             main_loop cs (s\<lparr>parsingResult_Errors := ch, parsingErrorsClosed := True\<rparr>)
         | Some (Some err, ch) \<Rightarrow>
             main_loop cs (s\<lparr>parsingResult_Errors := ch, errorCount := errorCount s + 1\<rparr>))
      else (Loop_exited, s))"
| "main_loop (Case_discovery_Errors # cs) s =
     (if main_running s then
        (case recv (discoveryResult_Errors_main s) of
           None \<Rightarrow> (Case_not_ready, s)
         | Some (None, ch) \<Rightarrow>
             main_loop cs (s\<lparr>discoveryResult_Errors_main := ch, discoveryErrorsClosed := True\<rparr>)
         | Some (Some err, ch) \<Rightarrow>
             main_loop cs (s\<lparr>discoveryResult_Errors_main := ch, errorCount := errorCount s + 1\<rparr>))
      else (Loop_exited, s))"

section \<open>The batch accumulator (\<open>addFileToCollection\<close> and \<open>collectFiles\<close>)\<close>

text \<open>
  The fields of \<open>discoveryModel\<close> that the two functions touch, with the mutex as a flag
  (held or not).  Each function is a short sequence of steps on the shared model; a step
  of \<open>Lock\<close> cannot proceed while the mutex is held.  A slice is the list it shows:
  \<open>collectedFiles := s.collectedDiscoveryFiles\<close> keeps the elements the slice had at that
  moment, whatever is appended to the field afterwards.
\<close>

record discoveryModel =
  collectedDiscoveryFiles :: "ParsedDicomFile list"
  collectionFinished :: bool
  discoveryMutex :: bool

datatype add_pc = Add_Lock | Add_append | Add_Unlock | Add_returned

record add_call =
  add_at :: add_pc
  add_file :: ParsedDicomFile

datatype collect_pc =
  Collect_read | Collect_Lock | Collect_make | Collect_Unlock | Collect_len | Collect_returned

record collect_call =
  collect_at :: collect_pc
  collectedFiles :: "ParsedDicomFile list"
  returned :: "ParsedDicomFile list option"

text \<open>One step of \<open>addFileToCollection(file)\<close>; \<open>None\<close> when the step cannot proceed.\<close>

fun addFileToCollection_step ::
    "add_call \<Rightarrow> discoveryModel \<Rightarrow> (add_call \<times> discoveryModel) option" where
  "addFileToCollection_step a s =
     (case add_at a of
        Add_Lock \<Rightarrow>
          if discoveryMutex s then None
          else Some (a\<lparr>add_at := Add_append\<rparr>, s\<lparr>discoveryMutex := True\<rparr>)
      | Add_append \<Rightarrow>
          Some (a\<lparr>add_at := Add_Unlock\<rparr>,
                s\<lparr>collectedDiscoveryFiles := collectedDiscoveryFiles s @ [add_file a]\<rparr>)
      | Add_Unlock \<Rightarrow> Some (a\<lparr>add_at := Add_returned\<rparr>, s\<lparr>discoveryMutex := False\<rparr>)
      | Add_returned \<Rightarrow> None)"

text \<open>One step of \<open>collectFiles()\<close>: the read of the field comes before \<open>Lock\<close>.\<close>

fun collectFiles_step ::
    "collect_call \<Rightarrow> discoveryModel \<Rightarrow> (collect_call \<times> discoveryModel) option" where
  "collectFiles_step c s =
     (case collect_at c of
        Collect_read \<Rightarrow>
          Some (c\<lparr>collect_at := Collect_Lock, collectedFiles := collectedDiscoveryFiles s\<rparr>, s)
      | Collect_Lock \<Rightarrow>
          if discoveryMutex s then None
          else Some (c\<lparr>collect_at := Collect_make\<rparr>, s\<lparr>discoveryMutex := True\<rparr>)
      | Collect_make \<Rightarrow>
          Some (c\<lparr>collect_at := Collect_Unlock\<rparr>, s\<lparr>collectedDiscoveryFiles := []\<rparr>)
      | Collect_Unlock \<Rightarrow> Some (c\<lparr>collect_at := Collect_len\<rparr>, s\<lparr>discoveryMutex := False\<rparr>)
      | Collect_len \<Rightarrow>
          Some (c\<lparr>collect_at := Collect_returned, returned := Some (collectedFiles c)\<rparr>,
                if length (collectedFiles c) = 0 then s\<lparr>collectionFinished := True\<rparr> else s)
      | Collect_returned \<Rightarrow> None)"

text \<open>
  The collector goroutine in a call of \<open>addFileToCollection\<close> and the consumer in a call
  of \<open>collectFiles\<close>, run in the order a schedule gives; \<open>None\<close> when the schedule asks for
  a step that cannot proceed.
\<close>

datatype goroutine = Collector | Consumer

fun run_accumulator ::
    "goroutine list \<Rightarrow> add_call \<times> collect_call \<times> discoveryModel
      \<Rightarrow> (add_call \<times> collect_call \<times> discoveryModel) option" where
  "run_accumulator [] cfg = Some cfg"
| "run_accumulator (Collector # sched) (a, c, s) =
     (case addFileToCollection_step a s of
        None \<Rightarrow> None
      | Some (a', s') \<Rightarrow> run_accumulator sched (a', c, s'))"
| "run_accumulator (Consumer # sched) (a, c, s) =
     (case collectFiles_step c s of
        None \<Rightarrow> None
      | Some (c', s') \<Rightarrow> run_accumulator sched (a, c', s'))"

section \<open>The discovery stage as a system of goroutines\<close>

text \<open>The body of the \<open>for path := range fileCh\<close> loop of \<open>dicomCheckerWorker\<close>.\<close>

definition dicomCheckerWorker_body ::
    "filesystem \<Rightarrow> string \<Rightarrow> os_state \<Rightarrow> DicomFile worker_op list \<times> os_state" where
  "dicomCheckerWorker_body fs path st =
     (case isValidDICOM fs path st of
        ((isValid, file_handle, Some err), st1) \<Rightarrow> ([Send_errCh err], st1)
      | ((isValid, file_handle, None), st1) \<Rightarrow>
          if isValid then ([Send_resultCh \<lparr>DicomFile.Path = path, Handle = file_handle\<rparr>], st1)
          else ([], st1))"

text \<open>
  A worker goroutine is at the head of its loop (\<open>Working []\<close>), has operations of the
  current iteration left to do, or has returned (and called \<open>wg.Done\<close>).  The goroutine
  that closes the output channels waits for all workers, closes \<open>errCh\<close>, then closes
  \<open>resultCh\<close>.
\<close>

datatype 'r worker = Working "'r worker_op list" | Worker_done

datatype barrier_pc = Barrier_Wait | Barrier_close_errCh | Barrier_close_resultCh | Barrier_returned

text \<open>
  The goroutines that \<open>DiscoverDICOMFiles\<close> starts (in either discoverer), the channels
  between them, the table of files and whether a panic has ended the process.
\<close>

record discovery_stage =
  walker :: "walker_op list"
  walker_end :: goroutine_end
  fileCh :: "string chan"
  resultCh :: "DicomFile chan"
  errCh :: "error chan"
  workers :: "DicomFile worker list"
  barrier :: barrier_pc
  opened :: os_state
  crashed :: bool

definition stage_start :: "string \<Rightarrow> walk_root \<Rightarrow> int \<Rightarrow> discovery_stage" where
  "stage_start dir tree maxConcurrency =
     (let n = nat (if maxConcurrency \<le> 0 then 8 else maxConcurrency)
      in \<lparr>walker = fst (fileWalker dir tree),
          walker_end = snd (fileWalker dir tree),
          fileCh = make_chan (n * 2),
          resultCh = make_chan (n * 2),
          errCh = make_chan (n * 2),
          workers = replicate n (Working []),
          barrier = Barrier_Wait,
          opened = [],
          crashed = False\<rparr>)"

text \<open>
  One step of each goroutine; \<open>None\<close> when it cannot proceed (it is blocked on a channel
  or on the wait group, or it has returned).
\<close>

definition walker_step :: "discovery_stage \<Rightarrow> discovery_stage option" where
  "walker_step s =
     (case walker s of
        [] \<Rightarrow>
          (case walker_end s of
             Goroutine_panics \<Rightarrow> Some (s\<lparr>crashed := True\<rparr>)
           | Goroutine_returns \<Rightarrow> None)
      | Walker_send_errCh err # ops \<Rightarrow>
          (case send err (errCh s) of
             Sent ch \<Rightarrow> Some (s\<lparr>errCh := ch, walker := ops\<rparr>)
           | Send_blocks \<Rightarrow> None
           | Send_panics \<Rightarrow> Some (s\<lparr>crashed := True\<rparr>))
      | Walker_send_fileCh path # ops \<Rightarrow>
          (case send path (fileCh s) of
             Sent ch \<Rightarrow> Some (s\<lparr>fileCh := ch, walker := ops\<rparr>)
           | Send_blocks \<Rightarrow> None
           | Send_panics \<Rightarrow> Some (s\<lparr>crashed := True\<rparr>))
      | Walker_close_fileCh # ops \<Rightarrow>
          if closed (fileCh s) then Some (s\<lparr>crashed := True\<rparr>)
          else Some (s\<lparr>fileCh := close_chan (fileCh s), walker := ops\<rparr>))"

definition worker_step :: "filesystem \<Rightarrow> nat \<Rightarrow> discovery_stage \<Rightarrow> discovery_stage option" where
  "worker_step fs i s =
     (if \<not> i < length (workers s) then None
      else case workers s ! i of
        Worker_done \<Rightarrow> None
      | Working [] \<Rightarrow>
          (case recv (fileCh s) of
             None \<Rightarrow> None
           | Some (None, ch) \<Rightarrow> Some (s\<lparr>workers := (workers s)[i := Worker_done]\<rparr>)
           | Some (Some path, ch) \<Rightarrow>
               (case dicomCheckerWorker_body fs path (opened s) of
                  (ops, st) \<Rightarrow>
                    Some (s\<lparr>fileCh := ch, workers := (workers s)[i := Working ops],
                            opened := st\<rparr>)))
      | Working (Send_errCh err # ops) \<Rightarrow>
          (case send err (errCh s) of
             Sent ch \<Rightarrow> Some (s\<lparr>errCh := ch, workers := (workers s)[i := Working ops]\<rparr>)
           | Send_blocks \<Rightarrow> None
           | Send_panics \<Rightarrow> Some (s\<lparr>crashed := True\<rparr>))
      | Working (Send_resultCh r # ops) \<Rightarrow>
          (case send r (resultCh s) of
             Sent ch \<Rightarrow> Some (s\<lparr>resultCh := ch, workers := (workers s)[i := Working ops]\<rparr>)
           | Send_blocks \<Rightarrow> None
           | Send_panics \<Rightarrow> Some (s\<lparr>crashed := True\<rparr>))
      | Working (Close_handle h # ops) \<Rightarrow>
          Some (s\<lparr>workers := (workers s)[i := Working ops],
                  opened := snd (File_Close h (opened s))\<rparr>))"

definition barrier_step :: "discovery_stage \<Rightarrow> discovery_stage option" where
  "barrier_step s =
     (case barrier s of
        Barrier_Wait \<Rightarrow>
          if list_all (\<lambda>w. w = Worker_done) (workers s)
          then Some (s\<lparr>barrier := Barrier_close_errCh\<rparr>) else None
      | Barrier_close_errCh \<Rightarrow>
          Some (s\<lparr>errCh := close_chan (errCh s), barrier := Barrier_close_resultCh\<rparr>)
      | Barrier_close_resultCh \<Rightarrow>
          Some (s\<lparr>resultCh := close_chan (resultCh s), barrier := Barrier_returned\<rparr>)
      | Barrier_returned \<Rightarrow> None)"

section \<open>Aggregate discovery (\<open>DiscoverDICOMFiles\<close> in \<open>discoverer.go\<close>)\<close>

text \<open>
  The stage, the locals of the drain loop, and the value returned once the loop has
  left.  A schedule names, step by step, the goroutine that moves; for the drain loop it
  names the case that \<open>select\<close> takes (\<open>From_errCh\<close> or \<open>From_resultCh\<close>), which must be
  able to proceed.
\<close>

record aggregate =
  stage :: discovery_stage
  drain :: drain_state
  result :: "(DicomFile list \<times> MultiError option) option"

datatype action = Walker | Worker nat | Barrier | From_errCh | From_resultCh

definition after_drain_step ::
    "aggregate \<Rightarrow> discovery_stage
      \<Rightarrow> (DicomFile list \<times> MultiError option) + drain_state \<Rightarrow> aggregate" where
  "after_drain_step s st r =
     (case r of
        Inl v \<Rightarrow> s\<lparr>stage := st, result := Some v\<rparr>
      | Inr d \<Rightarrow> s\<lparr>stage := st, drain := d\<rparr>)"

definition aggregate_step :: "filesystem \<Rightarrow> action \<Rightarrow> aggregate \<Rightarrow> aggregate option" where
  "aggregate_step fs a s =
     (if crashed (stage s) then None
      else case a of
        Walker \<Rightarrow> map_option (\<lambda>st. s\<lparr>stage := st\<rparr>) (walker_step (stage s))
      | Worker i \<Rightarrow> map_option (\<lambda>st. s\<lparr>stage := st\<rparr>) (worker_step fs i (stage s))
      | Barrier \<Rightarrow> map_option (\<lambda>st. s\<lparr>stage := st\<rparr>) (barrier_step (stage s))
      | From_errCh \<Rightarrow>
          if result s \<noteq> None then None
          else (case recv (errCh (stage s)) of
                  None \<Rightarrow> None
                | Some (err, ch) \<Rightarrow>
                    Some (after_drain_step s ((stage s)\<lparr>errCh := ch\<rparr>)
                            (drain_step (Recv_errCh err) (drain s))))
      | From_resultCh \<Rightarrow>
          if result s \<noteq> None then None
          else (case recv (resultCh (stage s)) of
                  None \<Rightarrow> None
                | Some (file, ch) \<Rightarrow>
                    Some (after_drain_step s ((stage s)\<lparr>resultCh := ch\<rparr>)
                            (drain_step (Recv_resultCh file) (drain s)))))"

fun aggregate_run :: "filesystem \<Rightarrow> action list \<Rightarrow> aggregate \<Rightarrow> aggregate option" where
  "aggregate_run fs [] s = Some s"
| "aggregate_run fs (a # as) s =
     (case aggregate_step fs a s of None \<Rightarrow> None | Some s' \<Rightarrow> aggregate_run fs as s')"

definition DiscoverDICOMFiles ::
    "filesystem \<Rightarrow> string \<Rightarrow> walk_root \<Rightarrow> int \<Rightarrow> action list \<Rightarrow> aggregate option" where
  "DiscoverDICOMFiles fs dir tree maxConcurrency schedule =
     aggregate_run fs schedule
       \<lparr>stage = stage_start dir tree maxConcurrency, drain = drain_start, result = None\<rparr>"

text \<open>
  A path is a matching file when \<open>os.Open\<close> opens it, its reads do not fail, it has at
  least 132 bytes and bytes [128,132) are the magic.
\<close>

definition matching :: "filesystem \<Rightarrow> string \<Rightarrow> bool" where
  "matching fs path =
     (case fs path of
        Missing err \<Rightarrow> False
      | Present bytes fault \<Rightarrow>
          fault = None \<and> 132 \<le> length bytes \<and> take 4 (drop 128 bytes) = ''DICM'')"

text \<open>
  The matching paths that are still on their way through the stage: not yet sent by the
  walker, waiting in \<open>fileCh\<close>, validated by a worker that has not sent the file yet, or
  waiting in \<open>resultCh\<close>.
\<close>

fun result_paths :: "DicomFile worker_op list \<Rightarrow> string list" where
  "result_paths [] = []"
| "result_paths (Send_resultCh r # ops) = DicomFile.Path r # result_paths ops"
| "result_paths (w # ops) = result_paths ops"

fun worker_paths :: "DicomFile worker \<Rightarrow> string list" where
  "worker_paths (Working ops) = result_paths ops"
| "worker_paths Worker_done = []"

definition in_flight :: "filesystem \<Rightarrow> discovery_stage \<Rightarrow> string multiset" where
  "in_flight fs s =
     mset (filter (matching fs) (sent_paths (walker s))) +
     mset (filter (matching fs) (buf (fileCh s))) +
     mset (concat (map worker_paths (workers s))) +
     mset (map DicomFile.Path (buf (resultCh s)))"

text \<open>The walker's remaining operations end with the one close of \<open>fileCh\<close>.\<close>

fun ends_with_close :: "walker_op list \<Rightarrow> bool" where
  "ends_with_close [] = False"
| "ends_with_close [w] = (w = Walker_close_fileCh)"
| "ends_with_close (w # ws) = (w \<noteq> Walker_close_fileCh \<and> ends_with_close ws)"

text \<open>
  The order in which the output channels are closed: \<open>errCh\<close> is closed exactly from the
  moment the closing goroutine has passed its first \<open>close\<close>, \<open>resultCh\<close> from the moment
  it has passed the second.
\<close>

definition close_order :: "discovery_stage \<Rightarrow> bool" where
  "close_order s =
     ((closed (errCh s) = (barrier s = Barrier_close_resultCh \<or> barrier s = Barrier_returned)) \<and>
      (closed (resultCh s) = (barrier s = Barrier_returned)))"

text \<open>
  What holds of the stage at every moment of a walk that started (\<open>os.Lstat\<close> of the
  root succeeded): the closing goroutine passes its wait only when all workers have
  returned, a worker returns only when \<open>fileCh\<close> is closed and empty, \<open>fileCh\<close> is closed
  only by the walker's last operation, and the matching paths in flight together with
  the paths of the files already taken from \<open>resultCh\<close> are the matching paths of the
  tree.
\<close>

definition stage_inv ::
    "filesystem \<Rightarrow> string multiset \<Rightarrow> string multiset \<Rightarrow> discovery_stage \<Rightarrow> bool" where
  "stage_inv fs expected taken s =
     (in_flight fs s + taken = expected \<and>
      close_order s \<and>
      workers s \<noteq> [] \<and>
      (barrier s \<noteq> Barrier_Wait \<longrightarrow> list_all (\<lambda>w. w = Worker_done) (workers s)) \<and>
      (list_ex (\<lambda>w. w = Worker_done) (workers s) \<longrightarrow> closed (fileCh s) \<and> buf (fileCh s) = []) \<and>
      (if closed (fileCh s) then walker s = [] else ends_with_close (walker s)))"

text \<open>What holds of aggregate discovery at every moment of such a walk.\<close>

definition aggregate_inv :: "filesystem \<Rightarrow> string multiset \<Rightarrow> aggregate \<Rightarrow> bool" where
  "aggregate_inv fs expected s =
     (stage_inv fs expected (mset (map DicomFile.Path (dicomFiles (drain s)))) (stage s) \<and>
      list_all (\<lambda>e. \<not> ignorable e) (errs (multiErr (drain s))) \<and>
      (case result s of
         None \<Rightarrow> True
       | Some (files, failure) \<Rightarrow>
           mset (map DicomFile.Path files) = expected \<and>
           (case failure of
              None \<Rightarrow> True
            | Some m \<Rightarrow> list_all (\<lambda>e. \<not> ignorable e) (errs m))))"

section \<open>Streaming discovery (\<open>DiscoverDICOMFiles\<close> in \<open>operations/discoverer.go\<close>)\<close>

text \<open>
  The streaming function starts the same goroutines and returns the two output channels
  at once.  Its caller is whoever receives from them: what it has received from
  \<open>Errors\<close> and from \<open>Files\<close> so far.  In a schedule, \<open>From_errCh\<close> and
  \<open>From_resultCh\<close> are now receptions by the caller.
\<close>

record streaming =
  running :: discovery_stage
  from_Errors :: "error list"
  from_Files :: "DicomFile list"

definition streaming_step :: "filesystem \<Rightarrow> action \<Rightarrow> streaming \<Rightarrow> streaming option" where
  "streaming_step fs a s =
     (if crashed (running s) then None
      else case a of
        Walker \<Rightarrow> map_option (\<lambda>st. s\<lparr>running := st\<rparr>) (walker_step (running s))
      | Worker i \<Rightarrow> map_option (\<lambda>st. s\<lparr>running := st\<rparr>) (worker_step fs i (running s))
      | Barrier \<Rightarrow> map_option (\<lambda>st. s\<lparr>running := st\<rparr>) (barrier_step (running s))
      | From_errCh \<Rightarrow>
          (case recv (errCh (running s)) of
             None \<Rightarrow> None
           | Some (None, ch) \<Rightarrow> Some (s\<lparr>running := (running s)\<lparr>errCh := ch\<rparr>\<rparr>)
           | Some (Some err, ch) \<Rightarrow>
               Some (s\<lparr>running := (running s)\<lparr>errCh := ch\<rparr>,
                       from_Errors := from_Errors s @ [err]\<rparr>))
      | From_resultCh \<Rightarrow>
          (case recv (resultCh (running s)) of
             None \<Rightarrow> None
           | Some (None, ch) \<Rightarrow> Some (s\<lparr>running := (running s)\<lparr>resultCh := ch\<rparr>\<rparr>)
           | Some (Some file, ch) \<Rightarrow>
               Some (s\<lparr>running := (running s)\<lparr>resultCh := ch\<rparr>,
                       from_Files := from_Files s @ [file]\<rparr>)))"

fun streaming_run :: "filesystem \<Rightarrow> action list \<Rightarrow> streaming \<Rightarrow> streaming option" where
  "streaming_run fs [] s = Some s"
| "streaming_run fs (a # as) s =
     (case streaming_step fs a s of None \<Rightarrow> None | Some s' \<Rightarrow> streaming_run fs as s')"

definition DiscoverDICOMFiles_streaming ::
    "filesystem \<Rightarrow> string \<Rightarrow> walk_root \<Rightarrow> int \<Rightarrow> action list \<Rightarrow> streaming option" where
  "DiscoverDICOMFiles_streaming fs dir tree maxConcurrency schedule =
     streaming_run fs schedule
       \<lparr>running = stage_start dir tree maxConcurrency,
        from_Errors = [], from_Files = []\<rparr>"

text \<open>
  The stage between two rounds of a schedule that lets one goroutine move at a time:
  nothing is in the channels, none of them is closed, each of the \<open>n\<close> workers is at
  the head of its loop and the closing goroutine still waits.
\<close>

definition idle_stage :: "nat \<Rightarrow> discovery_stage \<Rightarrow> bool" where
  "idle_stage n st =
     (0 < n \<and> workers st = replicate n (Working []) \<and>
      \<not> crashed st \<and> barrier st = Barrier_Wait \<and>
      buf (fileCh st) = [] \<and> \<not> closed (fileCh st) \<and> 0 < cap (fileCh st) \<and>
      buf (errCh st) = [] \<and> \<not> closed (errCh st) \<and> 0 < cap (errCh st) \<and>
      buf (resultCh st) = [] \<and> \<not> closed (resultCh st) \<and> 0 < cap (resultCh st))"

section \<open>A small directory used by the examples\<close>

definition example_fs :: filesystem where
  "example_fs p =
     (if p = ''/d/a.dcm'' then Present (replicate 128 (CHR 0x00) @ ''DICM'' @ ''payload'') None
      else if p = ''/d/b.txt'' then Present ''twenty-three bytes long'' None
      else if p = ''/d/c.dcm'' then Present (replicate 140 (CHR ''x'')) None
      else if p = ''/d/empty'' then Present [] None
      else if p = ''/d/link'' then Present [] (Some (OtherError ''read /d/link: is a directory''))
      else if p = ''/d/locked'' then Missing (OtherError ''open /d/locked: permission denied'')
      else Missing (OtherError ''no such file or directory''))"

definition released_record :: ParsedDicomFile where
  "released_record = \<lparr>Path = ''/d/gone.dcm'', Dataset = \<lparr>Elements = []\<rparr>, handle = Some 0, isOpen = False\<rparr>"

definition released_table :: os_state where
  "released_table =
     [\<lparr>f_path = ''/d/gone.dcm'', f_data = [], f_fault = None, f_pos = 0, f_open = False\<rparr>]"

definition example_decoder :: decoder where
  "example_decoder bytes =
     (if bytes = ''good'' then (Parsed \<lparr>Elements = [''PatientName'']\<rparr>, 4)
      else if bytes = ''bad'' then (Failed (OtherError ''unexpected EOF''), 3)
      else if bytes = ''boom'' then (Panicked (Panic_other ''index out of range''), 1)
      else (Panicked (Panic_error (OtherError ''runtime error: slice bounds out of range'')), 0))"

definition example_table :: os_state where
  "example_table =
     [\<lparr>f_path = ''/d/1'', f_data = ''boom'', f_fault = None, f_pos = 0, f_open = True\<rparr>,
      \<lparr>f_path = ''/d/2'', f_data = ''good'', f_fault = None, f_pos = 0, f_open = True\<rparr>,
      \<lparr>f_path = ''/d/3'', f_data = ''bad'', f_fault = None, f_pos = 0, f_open = True\<rparr>]"

definition example_files :: "DicomFile list" where
  "example_files =
     [\<lparr>DicomFile.Path = ''/d/1'', Handle = Some 0\<rparr>,
      \<lparr>DicomFile.Path = ''/d/2'', Handle = Some 1\<rparr>,
      \<lparr>DicomFile.Path = ''/d/3'', Handle = Some 2\<rparr>]"

definition collector_example :: error_collector where
  "collector_example =
     \<lparr>discoveryResult_Errors = \<lparr>buf = [], closed = True, cap = 16\<rparr>,
      parseResults_Errors = \<lparr>buf = [OtherError ''unexpected EOF''], closed = False, cap = 32\<rparr>,
      discoveryFinished = False,
      parseFinished = False,
      discoveryErrors = []\<rparr>"

definition record_1 :: ParsedDicomFile where
  "record_1 = \<lparr>Path = ''/d/1.dcm'', Dataset = \<lparr>Elements = []\<rparr>, handle = Some 0, isOpen = True\<rparr>"

definition record_2 :: ParsedDicomFile where
  "record_2 = \<lparr>Path = ''/d/2.dcm'', Dataset = \<lparr>Elements = []\<rparr>, handle = Some 1, isOpen = True\<rparr>"

definition accumulator_example :: "add_call \<times> collect_call \<times> discoveryModel" where
  "accumulator_example =
     (\<lparr>add_at = Add_Lock, add_file = record_2\<rparr>,
      \<lparr>collect_at = Collect_read, collectedFiles = [], returned = None\<rparr>,
      \<lparr>collectedDiscoveryFiles = [record_1], collectionFinished = False, discoveryMutex = False\<rparr>)"

definition example_tree :: fs_node where
  "example_tree = Directory ''d'' None [Regular ''a.dcm'', Regular ''b.txt'', Regular ''c.dcm'']"

definition example_schedule :: "action list" where
  "example_schedule =
     [Walker, Walker, Walker, Walker,
      Worker 0, Worker 1, Worker 0, Worker 1, Worker 0, Worker 0, Worker 0, Worker 1,
      Barrier, Barrier, Barrier,
      From_errCh, From_resultCh, From_errCh, From_resultCh]"

definition locked_tree :: fs_node where
  "locked_tree = Directory ''d'' None [Regular ''locked'']"

definition losing_schedule :: "action list" where
  "losing_schedule =
     [Walker, Walker, Worker 0, Worker 0, Worker 0, Barrier, Barrier, Barrier, From_resultCh]"

definition empty_tree :: fs_node where
  "empty_tree = Directory ''d'' None [Regular ''empty'']"

definition empty_schedule :: "action list" where
  "empty_schedule =
     [Walker, Walker, Worker 0, Worker 0, Worker 0, From_errCh,
      Barrier, Barrier, Barrier, From_resultCh]"

definition faulty_tree :: fs_node where
  "faulty_tree = Directory ''d'' None [Regular ''a.dcm'', Regular ''link'', Regular ''locked'']"

definition omitting_schedule :: "action list" where
  "omitting_schedule =
     [Walker, Walker, Worker 0, Walker, Walker, Worker 0, Worker 0, Worker 0, From_errCh,
      Worker 0, Worker 0, Worker 0, Barrier, Barrier, Barrier, From_resultCh, From_resultCh]"

definition small_tree :: fs_node where
  "small_tree = Directory ''d'' None [Regular ''b.txt'']"

definition small_schedule :: "action list" where
  "small_schedule = [Walker, Walker, Worker 0, Worker 0, From_errCh]"

definition main_example :: streaming_main where
  "main_example =
     \<lparr>parsingResult_Files = \<lparr>buf = [], closed = False, cap = 64\<rparr>,
      parsingResult_Errors = \<lparr>buf = [], closed = False, cap = 64\<rparr>,
      discoveryResult_Errors_main =
        \<lparr>buf = [ErrorFileTooSmallToBeDICOM], closed = False, cap = 32\<rparr>,
      parsedCount = 0,
      errorCount = 0,
      filesClosed = False,
      discoveryErrorsClosed = False,
      parsingErrorsClosed = False,
      written = [],
      files_table = []\<rparr>"

section \<open>Properties of the validator\<close>

lemma os_Open_Inr:
  assumes "os_Open fs path st = (Inr file, st1)"
  shows "file = length st \<and> length st1 = Suc (length st) \<and> f_open (st1 ! file) \<and>
         f_pos (st1 ! file) = 0 \<and> f_path (st1 ! file) = path"
  using assms by (auto simp: os_Open_def split: fs_entry.splits)

lemma File_Read_ok:
  assumes "File_Read (Some file) k st1 = ((n, header, None), st2)"
      and "file < length st1" and "f_open (st1 ! file)"
  shows "length st2 = length st1 \<and> f_open (st2 ! file)"
  using assms
  by (auto simp: File_Read_def Let_def split: if_splits option.splits)

text \<open>
  What the validator does with a path that \<open>os.Open\<close> opens and whose header read
  returns no error: too-small when fewer than 132 bytes were read, bad-signature when
  132 bytes were read and bytes [128,132) are not "DICM" (in both cases no handle is
  returned and the file is closed), and otherwise a validated file whose handle is open
  with its read position at 0.  A path that \<open>os.Open\<close> cannot open is reported with the
  error of \<open>os.Open\<close>.
\<close>

lemma isValidDICOM_classification:
  "(os_Open fs path st = (Inl err, st1) \<longrightarrow>
      isValidDICOM fs path st = ((False, None, Some err), st1)) \<and>
   (os_Open fs path st = (Inr file, st1) \<longrightarrow>
    File_Read (Some file) 132 st1 = ((n, header, None), st2) \<longrightarrow>
      (case isValidDICOM fs path st of
         ((ok, h, err'), st') \<Rightarrow>
           (if n < 132 then
              \<not> ok \<and> h = None \<and> err' = Some ErrorFileTooSmallToBeDICOM \<and>
              \<not> handle_open st' (Some file)
            else if take 4 (drop 128 header) \<noteq> ''DICM'' then
              \<not> ok \<and> h = None \<and> err' = Some ErrorInvalidMagicNumber \<and>
              \<not> handle_open st' (Some file)
            else
              ok \<and> h = Some file \<and> err' = None \<and>
              handle_open st' h \<and> handle_pos st' h = Some 0)))"
proof (intro conjI impI)
  assume "os_Open fs path st = (Inl err, st1)"
  then show "isValidDICOM fs path st = ((False, None, Some err), st1)"
    by (simp add: isValidDICOM_def File_Close_def)
next
  assume opened: "os_Open fs path st = (Inr file, st1)"
    and read: "File_Read (Some file) 132 st1 = ((n, header, None), st2)"
  from os_Open_Inr [OF opened]
  have f1: "file < length st1" and o1: "f_open (st1 ! file)" by auto
  from File_Read_ok [OF read f1 o1]
  have f2: "file < length st2" and o2: "f_open (st2 ! file)" using f1 by auto
  show "case isValidDICOM fs path st of
         ((ok, h, err'), st') \<Rightarrow>
           (if n < 132 then
              \<not> ok \<and> h = None \<and> err' = Some ErrorFileTooSmallToBeDICOM \<and>
              \<not> handle_open st' (Some file)
            else if take 4 (drop 128 header) \<noteq> ''DICM'' then
              \<not> ok \<and> h = None \<and> err' = Some ErrorInvalidMagicNumber \<and>
              \<not> handle_open st' (Some file)
            else
              ok \<and> h = Some file \<and> err' = None \<and>
              handle_open st' h \<and> handle_pos st' h = Some 0)"
    using f2 o2
    by (simp add: isValidDICOM_def opened read File_Close_def File_Seek_def
        handle_open_def handle_pos_def)
qed

text \<open>
  C1 says that every path of which fewer than 132 bytes were read is classified
  too-small.  The validator tests \<open>n < 132\<close> only after it has returned the error of
  \<open>file.Read\<close>, and a read at the end of a file returns \<open>0, io.EOF\<close>: an empty file, of
  which 0 bytes were read, is reported with \<open>io.EOF\<close>.  That value is not the too-small
  sentinel, the filter of the drain loop lets it pass, and aggregate discovery over a
  directory that holds one empty file returns a failure that lists it.
\<close>

theorem isValidDICOM_empty_file_reports_EOF:
  "os_Open example_fs ''/d/empty'' [] =
     (Inr 0, [\<lparr>f_path = ''/d/empty'', f_data = [], f_fault = None, f_pos = 0, f_open = True\<rparr>]) \<and>
   fst (File_Read (Some 0) 132
          [\<lparr>f_path = ''/d/empty'', f_data = [], f_fault = None, f_pos = 0, f_open = True\<rparr>]) =
     (0, replicate 132 (CHR 0x00), Some EOF) \<and>
   isValidDICOM example_fs ''/d/empty'' [] =
     ((False, None, Some EOF),
      [\<lparr>f_path = ''/d/empty'', f_data = [], f_fault = None, f_pos = 0, f_open = False\<rparr>]) \<and>
   EOF \<noteq> ErrorFileTooSmallToBeDICOM \<and> \<not> ignorable EOF \<and>
   map_option result
     (DiscoverDICOMFiles example_fs ''/d'' (Lstat_ok empty_tree) 1 empty_schedule) =
     Some (Some ([], Some \<lparr>errs = [EOF]\<rparr>))"
proof -
  have a: "os_Open example_fs ''/d/empty'' [] =
     (Inr 0, [\<lparr>f_path = ''/d/empty'', f_data = [], f_fault = None, f_pos = 0, f_open = True\<rparr>])"
    by (simp add: os_Open_def example_fs_def)
  have b: "fst (File_Read (Some 0) 132
          [\<lparr>f_path = ''/d/empty'', f_data = [], f_fault = None, f_pos = 0, f_open = True\<rparr>]) =
     (0, replicate 132 (CHR 0x00), Some EOF)"
    by (simp add: File_Read_def)
  have c: "isValidDICOM example_fs ''/d/empty'' [] =
     ((False, None, Some EOF),
      [\<lparr>f_path = ''/d/empty'', f_data = [], f_fault = None, f_pos = 0, f_open = False\<rparr>])"
    by (simp add: isValidDICOM_def os_Open_def example_fs_def File_Read_def File_Close_def)
  have d: "map_option result
     (DiscoverDICOMFiles example_fs ''/d'' (Lstat_ok empty_tree) 1 empty_schedule) =
     Some (Some ([], Some \<lparr>errs = [EOF]\<rparr>))"
    by code_simp
  from a b c d show ?thesis by (simp add: ignorable_def)
qed

section \<open>Re-acquiring a handle\<close>

text \<open>
  C9, as amended.  If the record is still open, \<open>GetHandle\<close> returns the existing handle
  and opens nothing.  If the handle was released and \<open>os.Open\<close> of the stored path
  succeeds, it stores the new handle, marks the record open and returns that handle,
  which is open at position 0 on the stored path.  If \<open>os.Open\<close> fails, it returns no
  handle and the error, and the record stays released.
\<close>

theorem GetHandle_cases:
  "(isOpen p \<longrightarrow> GetHandle fs p st = ((handle p, None), p, st)) \<and>
   (\<not> isOpen p \<longrightarrow>
      (case os_Open fs (Path p) st of
         (Inl err, st1) \<Rightarrow> GetHandle fs p st = ((None, Some err), p, st1) \<and> st1 = st
       | (Inr h, st1) \<Rightarrow>
           GetHandle fs p st = ((Some h, None), p\<lparr>handle := Some h, isOpen := True\<rparr>, st1) \<and>
           handle_open st1 (Some h) \<and> handle_pos st1 (Some h) = Some 0 \<and>
           f_path (st1 ! h) = Path p \<and> \<not> h < length st))"
proof (cases "isOpen p")
  case True
  then show ?thesis by (simp add: GetHandle_def)
next
  case False
  show ?thesis
  proof (cases "os_Open fs (Path p) st")
    case (Pair r st1)
    show ?thesis
    proof (cases r)
      case (Inl err)
      with Pair False show ?thesis
        by (auto simp: GetHandle_def os_Open_def split: fs_entry.splits)
    next
      case (Inr h)
      with Pair have op: "os_Open fs (Path p) st = (Inr h, st1)" by simp
      from os_Open_Inr [OF op]
      have "h = length st" and "length st1 = Suc (length st)" and "f_open (st1 ! h)"
        and "f_pos (st1 ! h) = 0" and "f_path (st1 ! h) = Path p"
        by auto
      then show ?thesis
        using False op by (simp add: GetHandle_def Let_def handle_open_def handle_pos_def)
    qed
  qed
qed

theorem GetHandle_cases_witness:
  "\<not> isOpen (released_record\<lparr>Path := ''/d/a.dcm''\<rparr>) \<and>
   fst (GetHandle example_fs (released_record\<lparr>Path := ''/d/a.dcm''\<rparr>) released_table)
     = (Some 1, None) \<and>
   isOpen (fst (snd (GetHandle example_fs (released_record\<lparr>Path := ''/d/a.dcm''\<rparr>) released_table))) \<and>
   isOpen (released_record\<lparr>isOpen := True\<rparr>) \<and>
   GetHandle example_fs (released_record\<lparr>isOpen := True\<rparr>) released_table
     = ((Some 0, None), released_record\<lparr>isOpen := True\<rparr>, released_table)"
  using GetHandle_cases [of "released_record\<lparr>Path := ''/d/a.dcm''\<rparr>" example_fs released_table]
        GetHandle_cases [of "released_record\<lparr>isOpen := True\<rparr>" example_fs released_table]
  by (simp add: released_record_def released_table_def os_Open_def example_fs_def)

text \<open>
  The claim as stated fails when the source can no longer be opened: the record stays
  released and no handle is returned.
\<close>

theorem GetHandle_reopen_counterexample:
  "GetHandle example_fs released_record released_table =
     ((None, Some (OtherError ''no such file or directory'')), released_record, released_table) \<and>
   \<not> isOpen released_record"
  by (simp add: GetHandle_def os_Open_def example_fs_def released_record_def)

section \<open>Releasing a record\<close>

text \<open>
  C10. \<open>ParsedDicomFile.Close\<close> is idempotent: on a record that is already released it
  returns nil and changes neither the record nor any file (no second close of the
  handle); and whatever the first \<open>Close\<close> returned and did, a second \<open>Close\<close> right after
  it returns nil and leaves the record and the files as the first one left them.
\<close>

theorem Close_idempotent:
  "(\<not> isOpen p \<longrightarrow> Close p st = (None, p, st)) \<and>
   (case Close p st of (err, p1, st1) \<Rightarrow> \<not> isOpen p1 \<and> Close p1 st1 = (None, p1, st1))"
  by (simp add: Close_def Let_def split: prod.splits)

theorem Close_idempotent_witness:
  "\<not> isOpen \<lparr>Path = ''a.dcm'', Dataset = \<lparr>Elements = []\<rparr>, handle = Some 0, isOpen = False\<rparr> \<and>
   Close \<lparr>Path = ''a.dcm'', Dataset = \<lparr>Elements = []\<rparr>, handle = Some 0, isOpen = False\<rparr>
         [\<lparr>f_path = ''a.dcm'', f_data = [], f_fault = None, f_pos = 0, f_open = False\<rparr>]
     = (None, \<lparr>Path = ''a.dcm'', Dataset = \<lparr>Elements = []\<rparr>, handle = Some 0, isOpen = False\<rparr>,
        [\<lparr>f_path = ''a.dcm'', f_data = [], f_fault = None, f_pos = 0, f_open = False\<rparr>])"
  using Close_idempotent
    [of "\<lparr>Path = ''a.dcm'', Dataset = \<lparr>Elements = []\<rparr>, handle = Some 0, isOpen = False\<rparr>"
        "[\<lparr>f_path = ''a.dcm'', f_data = [], f_fault = None, f_pos = 0, f_open = False\<rparr>]"]
  by simp

section \<open>The composite failure of aggregate discovery\<close>

lemma foldl_builder:
  "foldl (\<lambda>sb err. sb @ g err) acc es = acc @ concat (map g es)"
  by (induction es arbitrary: acc) auto

lemma Error_rendering:
  "Error \<lparr>errs = es\<rparr> = (if es = [] then [] else bullet_list es)"
  using foldl_builder [of "\<lambda>err. [CHR 0x0A] @ ''- '' @ error_message err"]
  by (simp add: Error_def bullet_list_def)

lemma drain_loop_from:
  assumes "Recv_resultCh None \<notin> set obs"
  shows "drain_loop (obs @ Recv_resultCh None # rest) s =
           Some (dicomFiles s @ received_files obs,
                 if errs (multiErr s) @ received_real_errors obs = [] then None
                 else Some \<lparr>errs = errs (multiErr s) @ received_real_errors obs\<rparr>)"
  using assms
proof (induction obs arbitrary: s)
  case Nil
  then show ?case by (simp add: HasErrors_def)
next
  case (Cons c cs)
  then have later: "Recv_resultCh None \<notin> set cs" by simp
  show ?case
  proof (cases c)
    case (Recv_errCh err)
    show ?thesis
    proof (cases err)
      case None
      with Recv_errCh show ?thesis
        using Cons.IH [OF later, of s] by (simp add: Add_def)
    next
      case (Some e)
      with Recv_errCh show ?thesis
        using Cons.IH [OF later, of s]
              Cons.IH [OF later, of "s\<lparr>multiErr := Add (multiErr s) (Some e)\<rparr>"]
        by (simp add: Add_def ignorable_def)
    qed
  next
    case (Recv_resultCh rf)
    with Cons.prems obtain f where f: "rf = Some f" by (cases rf) auto
    with Recv_resultCh show ?thesis
      using Cons.IH [OF later, of "s\<lparr>dicomFiles := dicomFiles s @ [f]\<rparr>"] by simp
  qed
qed

text \<open>
  What the drain loop does with the receptions it makes before it sees the result
  channel closed: it returns the files it received, in order, together with nil when it
  received no real error, and otherwise with one composite failure that holds the real
  errors in the order it received them; the rendering of that failure is the header line
  followed by one bullet per error, in the same order.
\<close>

lemma drain_loop_result:
  assumes "Recv_resultCh None \<notin> set obs"
  shows "drain_loop (obs @ Recv_resultCh None # rest) drain_start =
           Some (received_files obs,
                 if received_real_errors obs = [] then None
                 else Some \<lparr>errs = received_real_errors obs\<rparr>) \<and>
         Error \<lparr>errs = received_real_errors obs\<rparr> =
           (if received_real_errors obs = [] then []
            else bullet_list (received_real_errors obs))"
  using drain_loop_from [OF assms, of rest drain_start]
  by (simp add: drain_start_def New_def Error_rendering)

text \<open>
  C4 says that the failure aggregate discovery returns has one bullet per real error
  that occurred.  The loop returns as soon as it receives from the closed result channel,
  whatever is still in the error channel.  Here the directory holds a valid file, a link
  whose read fails and a file that cannot be opened: both errors are sent by the worker,
  the loop receives the first, and when both channels have been closed \<open>select\<close> takes
  the result channel twice.  Aggregate discovery returns the valid file and a failure
  whose rendering has the one bullet of the read error, while the open error is still
  in the buffer of the error channel.
\<close>

theorem aggregate_failure_omits_real_error:
  "map_option (\<lambda>s. (result s, buf (errCh (stage s))))
     (DiscoverDICOMFiles example_fs ''/d'' (Lstat_ok faulty_tree) 1 omitting_schedule) =
     Some (Some ([\<lparr>DicomFile.Path = ''/d/a.dcm'', Handle = Some 0\<rparr>],
                 Some \<lparr>errs = [OtherError ''read /d/link: is a directory'']\<rparr>),
           [OtherError ''open /d/locked: permission denied'']) \<and>
   Error \<lparr>errs = [OtherError ''read /d/link: is a directory'']\<rparr> =
     ''Multiple errors occurred:'' @ [CHR 0x0A] @ ''- read /d/link: is a directory'' \<and>
   \<not> ignorable (OtherError ''open /d/locked: permission denied'')"
proof -
  have a: "map_option (\<lambda>s. (result s, buf (errCh (stage s))))
     (DiscoverDICOMFiles example_fs ''/d'' (Lstat_ok faulty_tree) 1 omitting_schedule) =
     Some (Some ([\<lparr>DicomFile.Path = ''/d/a.dcm'', Handle = Some 0\<rparr>],
                 Some \<lparr>errs = [OtherError ''read /d/link: is a directory'']\<rparr>),
           [OtherError ''open /d/locked: permission denied''])"
    by code_simp
  have b: "Error \<lparr>errs = [OtherError ''read /d/link: is a directory'']\<rparr> =
     ''Multiple errors occurred:'' @ [CHR 0x0A] @ ''- read /d/link: is a directory''"
    by (simp add: Error_def)
  from a b show ?thesis by (simp add: ignorable_def)
qed

section \<open>The decode worker isolates failures\<close>

lemma ParseUntilEOF_frame:
  assumes "ParseUntilEOF parse file st = (out, st1)"
  shows "length st1 = length st"
    and "Some h' \<noteq> file \<Longrightarrow> st1 ! h' = st ! h'"
    and "handle_open st1 file = handle_open st file"
  using assms
  by (auto simp: ParseUntilEOF_def Let_def handle_open_def nth_list_update
           split: option.splits if_splits prod.splits)

lemma ParseUntilEOF_local:
  assumes "length st' = length st" and "h < length st" and "st' ! h = st ! h"
  shows "fst (ParseUntilEOF parse (Some h) st') = fst (ParseUntilEOF parse (Some h) st)"
  using assms
  by (simp add: ParseUntilEOF_def Let_def split: option.splits prod.splits)

lemma body_ops:
  "fst (dicomParserWorker_body parse file st) =
     outcome_ops file (fst (ParseUntilEOF parse (Handle file) st))"
proof (cases "ParseUntilEOF parse (Handle file) st")
  case (Pair out st1)
  then show ?thesis
    by (cases "(file, out)" rule: outcome_ops.cases)
       (auto simp: dicomParserWorker_body_def saveParseUntilEOF_def split: panic_value.splits)
qed

lemma body_state:
  "snd (dicomParserWorker_body parse file st) = snd (ParseUntilEOF parse (Handle file) st)"
  by (auto simp: dicomParserWorker_body_def saveParseUntilEOF_def
      split: prod.splits decode_outcome.splits panic_value.splits option.splits)

lemma File_Close_frame:
  shows "length (snd (File_Close file st)) = length st"
    and "Some h' \<noteq> file \<Longrightarrow> snd (File_Close file st) ! h' = st ! h'"
    and "\<not> handle_open (snd (File_Close file st)) file"
  by (auto simp: File_Close_def handle_open_def nth_list_update split: option.splits)

lemma run_outcome_ops:
  shows "length (fold run_op (outcome_ops d out) st) = length st"
    and "Some h' \<noteq> Handle d \<Longrightarrow> fold run_op (outcome_ops d out) st ! h' = st ! h'"
    and "handle_open (fold run_op (outcome_ops d out) st) (Handle d) =
           (is_Parsed out \<and> handle_open st (Handle d))"
  by (cases "(d, out)" rule: outcome_ops.cases; simp add: File_Close_frame)+

lemma handle_open_cong:
  assumes "length st' = length st" and "\<And>h. file = Some h \<Longrightarrow> st' ! h = st ! h"
  shows "handle_open st' file = handle_open st file"
  using assms by (auto simp: handle_open_def split: option.splits)

lemma ParseUntilEOF_cong:
  assumes "length st' = length st"
      and "\<And>h. file = Some h \<Longrightarrow> st' ! h = st ! h"
  shows "fst (ParseUntilEOF parse file st') = fst (ParseUntilEOF parse file st)"
proof (cases "file")
  case None
  then show ?thesis by (simp add: ParseUntilEOF_def)
next
  case (Some h)
  show ?thesis
  proof (cases "h < length st")
    case True
    with assms Some show ?thesis
      using ParseUntilEOF_local [of st' st h parse] by simp
  next
    case False
    with assms(1) Some show ?thesis by (simp add: ParseUntilEOF_def)
  qed
qed

lemma Parsed_needs_open:
  "is_Parsed (fst (ParseUntilEOF parse file st)) \<Longrightarrow> handle_open st file"
  by (auto simp: ParseUntilEOF_def handle_open_def Let_def
      split: option.splits if_splits prod.splits)

lemma worker_step_unfold:
  "dicomParserWorker parse (f # fs) st =
     (outcome_ops f (fst (ParseUntilEOF parse (Handle f) st)) @
        fst (dicomParserWorker parse fs
               (fold run_op (outcome_ops f (fst (ParseUntilEOF parse (Handle f) st)))
                  (snd (ParseUntilEOF parse (Handle f) st)))),
      snd (dicomParserWorker parse fs
               (fold run_op (outcome_ops f (fst (ParseUntilEOF parse (Handle f) st)))
                  (snd (ParseUntilEOF parse (Handle f) st)))))"
  using body_ops [of parse f st] body_state [of parse f st]
  by (cases "dicomParserWorker_body parse f st") (auto split: prod.splits)

lemma dicomParserWorker_all:
  assumes "distinct (map Handle files)"
  shows "fst (dicomParserWorker parse files st) =
           concat (map (\<lambda>f. outcome_ops f (fst (ParseUntilEOF parse (Handle f) st))) files) \<and>
         length (snd (dicomParserWorker parse files st)) = length st \<and>
         (\<forall>h. Some h \<notin> Handle ` set files \<longrightarrow>
              snd (dicomParserWorker parse files st) ! h = st ! h) \<and>
         (\<forall>f\<in>set files. handle_open (snd (dicomParserWorker parse files st)) (Handle f) =
              is_Parsed (fst (ParseUntilEOF parse (Handle f) st)))"
  using assms
proof (induction files arbitrary: st)
  case Nil
  show ?case by simp
next
  case (Cons f fs)
  define out where "out = fst (ParseUntilEOF parse (Handle f) st)"
  define st1 where "st1 = snd (ParseUntilEOF parse (Handle f) st)"
  define st2 where "st2 = fold run_op (outcome_ops f out) st1"
  define st3 where "st3 = snd (dicomParserWorker parse fs st2)"
  have pue: "ParseUntilEOF parse (Handle f) st = (out, st1)"
    by (simp add: out_def st1_def)
  have len1: "length st1 = length st"
    and same1: "\<And>h. Some h \<noteq> Handle f \<Longrightarrow> st1 ! h = st ! h"
    and open1: "handle_open st1 (Handle f) = handle_open st (Handle f)"
    using ParseUntilEOF_frame [OF pue] by auto
  have needs: "is_Parsed out \<Longrightarrow> handle_open st (Handle f)"
    unfolding out_def by (rule Parsed_needs_open)
  have len2: "length st2 = length st"
    and same2: "\<And>h. Some h \<noteq> Handle f \<Longrightarrow> st2 ! h = st ! h"
    and open2: "handle_open st2 (Handle f) = is_Parsed out"
    using run_outcome_ops [where d = f and out = out and st = st1] len1 same1 open1 needs
    by (auto simp: st2_def)
  have dist: "distinct (map Handle fs)" and notin: "Handle f \<notin> Handle ` set fs"
    using Cons.prems by auto
  have keep: "\<And>g h. g \<in> set fs \<Longrightarrow> Handle g = Some h \<Longrightarrow> st2 ! h = st ! h"
  proof -
    fix g h assume "g \<in> set fs" and "Handle g = Some h"
    with notin have "Some h \<noteq> Handle f" by (metis image_eqI)
    then show "st2 ! h = st ! h" by (rule same2)
  qed
  have out_fs: "\<And>g. g \<in> set fs \<Longrightarrow>
      fst (ParseUntilEOF parse (Handle g) st2) = fst (ParseUntilEOF parse (Handle g) st)"
    using keep by (intro ParseUntilEOF_cong len2) auto
  note IH = Cons.IH [OF dist, of st2]
  have unfold: "dicomParserWorker parse (f # fs) st =
      (outcome_ops f out @ fst (dicomParserWorker parse fs st2), st3)"
    using worker_step_unfold [of parse f fs st] by (simp add: out_def st1_def st2_def st3_def)
  have ops: "fst (dicomParserWorker parse fs st2) =
      concat (map (\<lambda>g. outcome_ops g (fst (ParseUntilEOF parse (Handle g) st))) fs)"
    using IH out_fs by (simp cong: map_cong)
  have len3: "length st3 = length st" using IH len2 by (simp add: st3_def)
  have same3: "\<And>h. Some h \<notin> Handle ` set fs \<Longrightarrow> st3 ! h = st2 ! h"
    using IH by (simp add: st3_def)
  have open3_f: "handle_open st3 (Handle f) = is_Parsed out"
  proof -
    have "handle_open st3 (Handle f) = handle_open st2 (Handle f)"
      using same3 notin len3 len2 by (intro handle_open_cong) auto
    with open2 show ?thesis by simp
  qed
  have open3_fs: "\<forall>g\<in>set fs. handle_open st3 (Handle g) =
      is_Parsed (fst (ParseUntilEOF parse (Handle g) st))"
    using IH out_fs by (simp add: st3_def)
  have frame3: "\<forall>h. Some h \<notin> Handle ` set (f # fs) \<longrightarrow> st3 ! h = st ! h"
  proof (intro allI impI)
    fix h assume h: "Some h \<notin> Handle ` set (f # fs)"
    then have "Some h \<notin> Handle ` set fs" and "Some h \<noteq> Handle f" by auto
    then show "st3 ! h = st ! h" using same3 same2 by simp
  qed
  show ?case
    unfolding unfold using ops len3 frame3 open3_f open3_fs
    by (simp add: out_def)
qed

text \<open>
  C3.  A worker that receives any list of validated files, no two with the same handle,
  does for every file, in order, what the outcome of the decoder calls for: when the
  decoder fails or panics, the failure is sent on the error channel as an ordinary error
  (a panic with its value or the text of its value) and then the handle is closed; when
  it succeeds, the record is sent with the handle and \<open>isOpen\<close> true.  No file stops the
  worker: the operations of all files are there.  Afterwards the handle of a file is
  open exactly when its decoding succeeded.
\<close>

theorem dicomParserWorker_isolates_failures:
  assumes "distinct (map Handle files)"
  shows "fst (dicomParserWorker parse files st) =
           concat (map (\<lambda>f. outcome_ops f (fst (ParseUntilEOF parse (Handle f) st))) files) \<and>
         (\<forall>f\<in>set files. handle_open (snd (dicomParserWorker parse files st)) (Handle f) =
              is_Parsed (fst (ParseUntilEOF parse (Handle f) st)))"
  using dicomParserWorker_all [OF assms, of parse st] by blast

theorem dicomParserWorker_isolates_failures_witness:
  "distinct (map Handle example_files) \<and>
   fst (dicomParserWorker example_decoder example_files example_table) =
     [Send_errCh (OtherError ''panic during DICOM parsing: index out of range''),
      Close_handle (Some 0),
      Send_resultCh \<lparr>Path = ''/d/2'', Dataset = \<lparr>Elements = [''PatientName'']\<rparr>,
                      handle = Some 1, isOpen = True\<rparr>,
      Send_errCh (OtherError ''unexpected EOF''),
      Close_handle (Some 2)] \<and>
   \<not> handle_open (snd (dicomParserWorker example_decoder example_files example_table)) (Some 0) \<and>
   handle_open (snd (dicomParserWorker example_decoder example_files example_table)) (Some 1) \<and>
   \<not> handle_open (snd (dicomParserWorker example_decoder example_files example_table)) (Some 2)"
proof -
  have d: "distinct (map Handle example_files)"
    by (simp add: example_files_def)
  show ?thesis
    using dicomParserWorker_isolates_failures [OF d, of example_decoder example_table]
    by (simp add: example_files_def example_table_def example_decoder_def
        dicomParserWorker_body_def saveParseUntilEOF_def ParseUntilEOF_def
        File_Close_def handle_open_def)
qed

section \<open>The directory walk and traversal errors\<close>

lemma sent_paths_append: "sent_paths (xs @ ys) = sent_paths xs @ sent_paths ys"
  by (induction xs rule: sent_paths.induct) auto

lemma walk_callback_entry:
  "snd (walk_callback path (Some d) err) = Returns None"
  by (simp add: walk_callback_def Let_def)

lemma walk_callback_paths:
  "sent_paths (fst (walk_callback path (Some d) err)) = (if IsDir d then [] else [path])"
  by (auto simp: walk_callback_def Let_def sent_paths_append split: option.splits)

lemma walkDir_visits_all:
  "snd (walkDir walk_callback path n) = Returns None \<and>
   sent_paths (fst (walkDir walk_callback path n)) = file_paths path n"
  "snd (walkDir_entries walk_callback path ns) = Returns None \<and>
   sent_paths (fst (walkDir_entries walk_callback path ns)) = file_paths_entries path ns"
proof (induction path n and path ns rule: file_paths_file_paths_entries.induct)
  case (1 path name)
  show ?case
    using walk_callback_entry [of path "Regular name" None]
          walk_callback_paths [of path "Regular name" None]
    by simp
next
  case (2 path name rerr entries)
  obtain ops1 where c1: "walk_callback path (Some (Directory name rerr entries)) None = (ops1, Returns None)"
    and p1: "sent_paths ops1 = []"
    using walk_callback_entry [of path "Directory name rerr entries" None]
          walk_callback_paths [of path "Directory name rerr entries" None]
    by (cases "walk_callback path (Some (Directory name rerr entries)) None") auto
  obtain ops3 where c3: "walkDir_entries walk_callback path entries = (ops3, Returns None)"
    and p3: "sent_paths ops3 = file_paths_entries path entries"
    using 2 by (cases "walkDir_entries walk_callback path entries") auto
  show ?case
  proof (cases rerr)
    case None
    with c1 c3 p1 p3 show ?thesis by (simp add: sent_paths_append)
  next
    case (Some err)
    obtain ops2 where c2: "walk_callback path (Some (Directory name rerr entries)) (Some err) = (ops2, Returns None)"
      and p2: "sent_paths ops2 = []"
      using walk_callback_entry [of path "Directory name rerr entries" "Some err"]
            walk_callback_paths [of path "Directory name rerr entries" "Some err"]
      by (cases "walk_callback path (Some (Directory name rerr entries)) (Some err)") auto
    with Some c1 c3 p1 p3 show ?thesis by (simp add: sent_paths_append)
  qed
next
  case (3 path)
  show ?case by simp
next
  case (4 path d1 ds)
  obtain ops1 where c1: "walkDir walk_callback (Join path (Name d1)) d1 = (ops1, Returns None)"
    and p1: "sent_paths ops1 = file_paths (Join path (Name d1)) d1"
    using 4 by (cases "walkDir walk_callback (Join path (Name d1)) d1") auto
  obtain ops2 where c2: "walkDir_entries walk_callback path ds = (ops2, Returns None)"
    and p2: "sent_paths ops2 = file_paths_entries path ds"
    using 4 by (cases "walkDir_entries walk_callback path ds") auto
  show ?case using c1 c2 p1 p2 by (simp add: sent_paths_append)
qed

lemma fileWalker_completes:
  "fileWalker dir (Lstat_ok info) =
     (fst (walkDir walk_callback dir info) @ [Walker_close_fileCh], Goroutine_returns) \<and>
   sent_paths (fst (fileWalker dir (Lstat_ok info))) = file_paths dir info"
  using walkDir_visits_all(1) [of dir info]
  by (cases "walkDir walk_callback dir info") (simp add: fileWalker_def WalkDir_def sent_paths_append)

text \<open>
  C8 asks that a traversal error, also one on the root itself, never halts the walk and
  that the path channel is closed in the end.  Below the root this is what the walker
  does (\<open>fileWalker_completes\<close>: every path is sent whatever \<open>os.ReadDir\<close> reported, and
  the channel is closed).  On the root it is not: when \<open>os.Lstat\<close> of the root fails, the
  callback sends the error and then calls \<open>d.IsDir()\<close> on the nil entry, so the goroutine
  panics after one send and never closes the path channel.
\<close>

theorem fileWalker_root_error_panics:
  "fileWalker dir (Lstat_fails err) = ([Walker_send_errCh err], Goroutine_panics)"
  by (simp add: fileWalker_def WalkDir_def walk_callback_def)

section \<open>Drain loops\<close>

lemma main_loop_exit:
  "main_loop cs s = (Loop_exited, s') \<Longrightarrow>
     filesClosed s' \<and> discoveryErrorsClosed s' \<and> parsingErrorsClosed s'"
proof (induction cs s rule: main_loop.induct)
  case (1 s)
  then show ?case by (auto simp: main_running_def split: if_splits)
next
  case (2 cs s)
  then show ?case
    by (auto simp: main_running_def Let_def split: if_splits option.splits prod.splits)
next
  case (3 cs s)
  then show ?case
    by (auto simp: main_running_def split: if_splits option.splits prod.splits)
next
  case (4 cs s)
  then show ?case
    by (auto simp: main_running_def split: if_splits option.splits prod.splits)
qed

text \<open>
  C6 asks that every drain loop goes on until both of its channels are closed.  The loop
  of \<open>main\<close> does (\<open>main_loop_exit\<close>).  The error collector of the consumer bridge does not:
  its condition is \<open>!discoveryFinished && !parseFinished\<close>, so it leaves as soon as one of
  the two channels is seen closed.  Here the discovery error channel is closed and the
  parsing error channel is open with an error in its buffer: after the one reception
  from the closed channel the loop has left, whatever the next choices would be, and the
  parsing error channel is still open with its error never received.
\<close>

theorem error_collector_abandons_open_channel:
  "error_collector_loop (Case_discoveryResult_Errors # rest) collector_example =
     (Loop_exited, collector_example\<lparr>discoveryFinished := True\<rparr>) \<and>
   \<not> closed (parseResults_Errors (collector_example\<lparr>discoveryFinished := True\<rparr>)) \<and>
   buf (parseResults_Errors (collector_example\<lparr>discoveryFinished := True\<rparr>)) =
     [OtherError ''unexpected EOF''] \<and>
   discoveryErrors (collector_example\<lparr>discoveryFinished := True\<rparr>) = []"
proof -
  have left: "error_collector_loop rest (collector_example\<lparr>discoveryFinished := True\<rparr>) =
      (Loop_exited, collector_example\<lparr>discoveryFinished := True\<rparr>)"
    by (cases "(rest, collector_example\<lparr>discoveryFinished := True\<rparr>)"
          rule: error_collector_loop.cases) auto
  have step: "recv (discoveryResult_Errors collector_example) =
      Some (None, discoveryResult_Errors collector_example)"
    by (simp add: recv_def collector_example_def)
  have start: "\<not> discoveryFinished collector_example \<and> \<not> parseFinished collector_example"
    by (simp add: collector_example_def)
  have "error_collector_loop (Case_discoveryResult_Errors # rest) collector_example =
      error_collector_loop rest (collector_example\<lparr>discoveryFinished := True\<rparr>)"
    using step start by simp
  with left show ?thesis by (simp add: collector_example_def)
qed

section \<open>Take-and-clear\<close>

text \<open>
  C7 asks that the poll swaps the list for an empty one atomically under the lock, so
  that no record is lost between the snapshot and the clear.  \<open>collectFiles\<close> reads the
  list before it takes the lock.  Here the list holds one record and the collector is
  about to add a second one: the consumer reads the list, the collector then locks,
  appends and unlocks, and the consumer locks, replaces the list by an empty one and
  returns the batch it read.  The second record is in no batch and no longer in the
  list.
\<close>

theorem collectFiles_loses_record:
  "run_accumulator
     [Consumer, Collector, Collector, Collector, Consumer, Consumer, Consumer, Consumer]
     accumulator_example =
     Some (\<lparr>add_at = Add_returned, add_file = record_2\<rparr>,
           \<lparr>collect_at = Collect_returned, collectedFiles = [record_1],
             returned = Some [record_1]\<rparr>,
           \<lparr>collectedDiscoveryFiles = [], collectionFinished = False, discoveryMutex = False\<rparr>) \<and>
   record_2 \<noteq> record_1"
  by (simp add: accumulator_example_def record_1_def record_2_def)

section \<open>What stays true of the discovery stage\<close>

lemma isValidDICOM_matching:
  "(case isValidDICOM fs path st of
      ((ok, h, err), st') \<Rightarrow>
        ok = matching fs path \<and> (err = None) = matching fs path)"
proof (cases "fs path")
  case (Missing e)
  then show ?thesis
    by (simp add: isValidDICOM_def os_Open_def File_Close_def matching_def)
next
  case (Present bytes fault)
  show ?thesis
  proof (cases fault)
    case (Some e)
    with Present show ?thesis
      by (simp add: isValidDICOM_def os_Open_def File_Read_def File_Close_def matching_def
          split: prod.splits)
  next
    case None
    have hdr: "132 \<le> length bytes \<Longrightarrow> take 4 (drop 128 (take 132 bytes)) = take 4 (drop 128 bytes)"
      by (simp add: drop_take)
    from None Present show ?thesis
      using hdr
      by (auto simp: isValidDICOM_def os_Open_def File_Read_def File_Close_def File_Seek_def
          matching_def Let_def min_def split: prod.splits if_splits)
  qed
qed

lemma dicomCheckerWorker_body_paths:
  "result_paths (fst (dicomCheckerWorker_body fs path st)) =
     (if matching fs path then [path] else [])"
  using isValidDICOM_matching [of fs path st]
  by (auto simp: dicomCheckerWorker_body_def split: prod.splits option.splits)

lemma mset_concat_update:
  "i < length xs \<Longrightarrow>
     mset (concat (map f (xs[i := y]))) + mset (f (xs ! i)) =
     mset (concat (map f xs)) + mset (f y)"
proof (induction xs arbitrary: i)
  case Nil
  then show ?case by simp
next
  case (Cons x xs)
  then show ?case by (cases i) (auto simp: ac_simps)
qed


lemma ends_with_close_Cons:
  "ends_with_close (w # ws) =
     ((w = Walker_close_fileCh \<and> ws = []) \<or> (w \<noteq> Walker_close_fileCh \<and> ends_with_close ws))"
  by (cases ws) auto

lemma walker_step_inv:
  assumes "stage_inv fs expected taken s" and "walker_step s = Some s'"
  shows "stage_inv fs expected taken s'"
proof (cases "walker s")
  case Nil
  with assms show ?thesis
    by (auto simp: walker_step_def stage_inv_def in_flight_def close_order_def
        split: goroutine_end.splits)
next
  case (Cons w ops)
  show ?thesis
  proof (cases w)
    case (Walker_send_errCh err)
    with Cons assms show ?thesis
      by (auto simp: walker_step_def stage_inv_def in_flight_def close_order_def send_def
          ends_with_close_Cons split: if_splits)
  next
    case (Walker_send_fileCh path)
    with Cons assms show ?thesis
      by (auto simp: walker_step_def stage_inv_def in_flight_def close_order_def send_def
          ends_with_close_Cons split: if_splits)
  next
    case Walker_close_fileCh
    with Cons assms show ?thesis
      by (auto simp: walker_step_def stage_inv_def in_flight_def close_order_def close_chan_def
          ends_with_close_Cons split: if_splits)
  qed
qed

lemma barrier_step_inv:
  assumes "stage_inv fs expected taken s" and "barrier_step s = Some s'"
  shows "stage_inv fs expected taken s'"
  using assms
  by (cases "barrier s")
     (auto simp: barrier_step_def stage_inv_def in_flight_def close_order_def close_chan_def
        split: if_splits)


lemma list_ex_update:
  "list_ex P (xs[i := y]) \<Longrightarrow> \<not> P y \<Longrightarrow> list_ex P xs"
  using set_update_subset_insert [of xs i y] by (auto simp: list_ex_iff)

lemma list_all_nth: "list_all P xs \<Longrightarrow> i < length xs \<Longrightarrow> P (xs ! i)"
  by (simp add: list_all_length)

lemma in_flight_worker_update:
  assumes "i < length (workers s)"
      and "walker s' = walker s"
      and "workers s' = (workers s)[i := w]"
      and "mset (filter (matching fs) (buf (fileCh s'))) + mset (worker_paths w) +
           mset (map DicomFile.Path (buf (resultCh s'))) =
           mset (filter (matching fs) (buf (fileCh s))) + mset (worker_paths (workers s ! i)) +
           mset (map DicomFile.Path (buf (resultCh s)))"
  shows "in_flight fs s' = in_flight fs s"
proof (rule multiset_eqI)
  fix x
  have "mset (concat (map worker_paths ((workers s)[i := w]))) + mset (worker_paths (workers s ! i)) =
        mset (concat (map worker_paths (workers s))) + mset (worker_paths w)"
    using assms(1) by (rule mset_concat_update)
  from arg_cong [OF this, of "\<lambda>m. count m x"]
  have 1: "count (mset (concat (map worker_paths ((workers s)[i := w])))) x +
           count (mset (worker_paths (workers s ! i))) x =
           count (mset (concat (map worker_paths (workers s)))) x +
           count (mset (worker_paths w)) x"
    by simp
  from arg_cong [OF assms(4), of "\<lambda>m. count m x"]
  have 2: "count (mset (filter (matching fs) (buf (fileCh s')))) x + count (mset (worker_paths w)) x +
           count (mset (map DicomFile.Path (buf (resultCh s')))) x =
           count (mset (filter (matching fs) (buf (fileCh s)))) x +
           count (mset (worker_paths (workers s ! i))) x +
           count (mset (map DicomFile.Path (buf (resultCh s)))) x"
    by simp
  show "count (in_flight fs s') x = count (in_flight fs s) x"
    unfolding in_flight_def assms(2) assms(3) using 1 2 by simp
qed

lemma worker_update_inv:
  assumes inv: "stage_inv fs expected taken s"
      and i: "i < length (workers s)" and wi: "workers s ! i = Working ops"
      and same: "walker s' = walker s" "barrier s' = barrier s"
                "closed (errCh s') = closed (errCh s)" "closed (resultCh s') = closed (resultCh s)"
                "closed (fileCh s') = closed (fileCh s)"
      and upd: "workers s' = (workers s)[i := w]"
      and flight: "mset (filter (matching fs) (buf (fileCh s'))) + mset (worker_paths w) +
           mset (map DicomFile.Path (buf (resultCh s'))) =
           mset (filter (matching fs) (buf (fileCh s))) + mset (worker_paths (workers s ! i)) +
           mset (map DicomFile.Path (buf (resultCh s)))"
      and returned: "w = Worker_done \<Longrightarrow> closed (fileCh s) \<and> buf (fileCh s') = []"
      and empty: "buf (fileCh s) = [] \<Longrightarrow> buf (fileCh s') = []"
  shows "stage_inv fs expected taken s'"
proof -
  have fl: "in_flight fs s' = in_flight fs s"
    using i same(1) upd flight by (rule in_flight_worker_update)
  have wait: "barrier s = Barrier_Wait"
  proof (rule ccontr)
    assume "barrier s \<noteq> Barrier_Wait"
    with inv have "list_all (\<lambda>w. w = Worker_done) (workers s)" by (simp add: stage_inv_def)
    from list_all_nth [OF this i] wi show False by simp
  qed
  have ex: "list_ex (\<lambda>w. w = Worker_done) (workers s') \<Longrightarrow>
              closed (fileCh s') \<and> buf (fileCh s') = []"
  proof (cases "w = Worker_done")
    case True
    with returned same(5) show ?thesis by simp
  next
    case False
    assume "list_ex (\<lambda>w. w = Worker_done) (workers s')"
    with upd False have "list_ex (\<lambda>w. w = Worker_done) (workers s)"
      using list_ex_update [of "\<lambda>w. w = Worker_done" "workers s" i w] by simp
    with inv have "closed (fileCh s) \<and> buf (fileCh s) = []" by (simp add: stage_inv_def)
    with empty same(5) show ?thesis by simp
  qed
  have ne: "workers s' \<noteq> []" using inv upd by (simp add: stage_inv_def)
  have co: "close_order s'" using inv same by (simp add: stage_inv_def close_order_def)
  have wk: "if closed (fileCh s') then walker s' = [] else ends_with_close (walker s')"
    using inv same by (simp add: stage_inv_def)
  show ?thesis
    unfolding stage_inv_def using fl inv ne co wk ex wait same(2)
    by (simp add: stage_inv_def)
qed

lemma stage_inv_crashed:
  "stage_inv fs expected taken (s\<lparr>crashed := b\<rparr>) = stage_inv fs expected taken s"
  by (simp add: stage_inv_def in_flight_def close_order_def)


lemma worker_step_inv:
  assumes inv: "stage_inv fs expected taken s" and step: "worker_step fs i s = Some s'"
  shows "stage_inv fs expected taken s'"
proof -
  from step have i: "i < length (workers s)"
    by (auto simp: worker_step_def split: if_splits)
  show ?thesis
  proof (cases "workers s ! i")
    case Worker_done
    with step i show ?thesis by (simp add: worker_step_def)
  next
    case (Working ops)
    show ?thesis
    proof (cases ops)
      case Nil
      note wi = Working [unfolded Nil]
      show ?thesis
      proof (cases "buf (fileCh s)")
        case empty: Nil
        with step i wi have c: "closed (fileCh s)"
          and s': "s' = s\<lparr>workers := (workers s)[i := Worker_done]\<rparr>"
          by (auto simp: worker_step_def recv_def split: if_splits)
        show ?thesis
          using inv i wi
          by (rule worker_update_inv [where w = Worker_done]) (simp_all add: s' wi c empty)
      next
        case (Cons path xs)
        obtain ops' st where body: "dicomCheckerWorker_body fs path (opened s) = (ops', st)"
          by (cases "dicomCheckerWorker_body fs path (opened s)")
        with step i wi Cons
        have s': "s' = s\<lparr>fileCh := (fileCh s)\<lparr>buf := xs\<rparr>,
                          workers := (workers s)[i := Working ops'], opened := st\<rparr>"
          by (simp add: worker_step_def recv_def)
        have paths: "result_paths ops' = (if matching fs path then [path] else [])"
          using dicomCheckerWorker_body_paths [of fs path "opened s"] body by simp
        show ?thesis
          using inv i wi
          by (rule worker_update_inv [where w = "Working ops'"])
             (simp_all add: s' wi Cons paths)
      qed
    next
      case (Cons op ops')
      note wi = Working [unfolded Cons]
      show ?thesis
      proof (cases op)
        case (Send_errCh err)
        show ?thesis
        proof (cases "send err (errCh s)")
          case (Sent ch)
          with step i wi Send_errCh
          have s': "s' = s\<lparr>errCh := ch, workers := (workers s)[i := Working ops']\<rparr>"
            by (simp add: worker_step_def)
          from Sent have ch: "closed ch = closed (errCh s)"
            by (auto simp: send_def split: if_splits)
          show ?thesis
            using inv i wi
            by (rule worker_update_inv [where w = "Working ops'"])
               (simp_all add: s' wi Send_errCh ch)
        next
          case Send_blocks
          with step i wi Send_errCh show ?thesis by (simp add: worker_step_def)
        next
          case Send_panics
          with step i wi Send_errCh have "s' = s\<lparr>crashed := True\<rparr>"
            by (simp add: worker_step_def)
          with inv show ?thesis by (simp add: stage_inv_crashed)
        qed
      next
        case (Send_resultCh r)
        show ?thesis
        proof (cases "send r (resultCh s)")
          case (Sent ch)
          with step i wi Send_resultCh
          have s': "s' = s\<lparr>resultCh := ch, workers := (workers s)[i := Working ops']\<rparr>"
            by (simp add: worker_step_def)
          from Sent have ch: "closed ch = closed (resultCh s)" "buf ch = buf (resultCh s) @ [r]"
            by (auto simp: send_def split: if_splits)
          show ?thesis
            using inv i wi
            by (rule worker_update_inv [where w = "Working ops'"])
               (simp_all add: s' wi Send_resultCh ch)
        next
          case Send_blocks
          with step i wi Send_resultCh show ?thesis by (simp add: worker_step_def)
        next
          case Send_panics
          with step i wi Send_resultCh have "s' = s\<lparr>crashed := True\<rparr>"
            by (simp add: worker_step_def)
          with inv show ?thesis by (simp add: stage_inv_crashed)
        qed
      next
        case (Close_handle h)
        with step i wi
        have s': "s' = s\<lparr>workers := (workers s)[i := Working ops'],
                          opened := snd (File_Close h (opened s))\<rparr>"
          by (simp add: worker_step_def)
        show ?thesis
          using inv i wi
          by (rule worker_update_inv [where w = "Working ops'"])
             (simp_all add: s' wi Close_handle)
      qed
    qed
  qed
qed


lemma all_returned_no_paths:
  "list_all (\<lambda>w. w = Worker_done) ws \<Longrightarrow> concat (map worker_paths ws) = []"
  by (induction ws) auto

lemma list_all_ex: "list_all P xs \<Longrightarrow> xs \<noteq> [] \<Longrightarrow> list_ex P xs"
  by (cases xs) auto

lemma recv_errCh_inv:
  assumes "stage_inv fs expected taken s" and "recv (errCh s) = Some (v, ch)"
  shows "stage_inv fs expected taken (s\<lparr>errCh := ch\<rparr>)"
proof -
  from assms(2) have "closed ch = closed (errCh s)"
    by (auto simp: recv_def split: list.splits if_splits)
  with assms(1) show ?thesis
    by (simp add: stage_inv_def in_flight_def close_order_def)
qed

lemma recv_resultCh_inv:
  assumes "stage_inv fs expected taken s" and "recv (resultCh s) = Some (Some f, ch)"
  shows "stage_inv fs expected (taken + {#DicomFile.Path f#}) (s\<lparr>resultCh := ch\<rparr>)"
proof -
  from assms(2) have ch: "closed ch = closed (resultCh s)" "buf (resultCh s) = f # buf ch"
    by (auto simp: recv_def split: list.splits if_splits)
  have "in_flight fs (s\<lparr>resultCh := ch\<rparr>) + {#DicomFile.Path f#} = in_flight fs s"
    by (simp add: in_flight_def ch)
  moreover have "in_flight fs (s\<lparr>resultCh := ch\<rparr>) + (taken + {#DicomFile.Path f#}) =
      (in_flight fs (s\<lparr>resultCh := ch\<rparr>) + {#DicomFile.Path f#}) + taken"
    by (simp add: ac_simps)
  moreover from assms(1) have "in_flight fs s + taken = expected"
    by (simp add: stage_inv_def)
  ultimately have "in_flight fs (s\<lparr>resultCh := ch\<rparr>) + (taken + {#DicomFile.Path f#}) = expected"
    by simp
  with assms(1) ch(1) show ?thesis
    by (simp add: stage_inv_def close_order_def)
qed

lemma recv_resultCh_closed:
  assumes inv: "stage_inv fs expected taken s" and "recv (resultCh s) = Some (None, ch)"
  shows "taken = expected \<and> ch = resultCh s"
proof -
  from assms(2) have ch: "ch = resultCh s" "closed (resultCh s)" "buf (resultCh s) = []"
    by (auto simp: recv_def split: list.splits if_splits)
  from inv ch(2) have "barrier s = Barrier_returned"
    by (simp add: stage_inv_def close_order_def)
  with inv have all: "list_all (\<lambda>w. w = Worker_done) (workers s)"
    by (simp add: stage_inv_def)
  moreover from inv have "workers s \<noteq> []" by (simp add: stage_inv_def)
  ultimately have "list_ex (\<lambda>w. w = Worker_done) (workers s)" by (rule list_all_ex)
  with inv have fc: "closed (fileCh s)" "buf (fileCh s) = []" by (simp_all add: stage_inv_def)
  with inv have "walker s = []" by (simp add: stage_inv_def)
  with fc ch(3) all_returned_no_paths [OF all] have "in_flight fs s = {#}"
    by (simp add: in_flight_def)
  with inv ch(1) show ?thesis by (simp add: stage_inv_def)
qed

lemma aggregate_step_inv:
  assumes inv: "aggregate_inv fs expected s" and step: "aggregate_step fs a s = Some s'"
  shows "aggregate_inv fs expected s'"
proof (cases a)
  case Walker
  with step obtain st where "walker_step (stage s) = Some st" and "s' = s\<lparr>stage := st\<rparr>"
    by (auto simp: aggregate_step_def split: if_splits)
  with inv walker_step_inv [of fs expected _ "stage s" st] show ?thesis
    by (simp add: aggregate_inv_def)
next
  case (Worker i)
  with step obtain st where "worker_step fs i (stage s) = Some st" and "s' = s\<lparr>stage := st\<rparr>"
    by (auto simp: aggregate_step_def split: if_splits)
  with inv worker_step_inv [of fs expected _ "stage s" i st] show ?thesis
    by (simp add: aggregate_inv_def)
next
  case Barrier
  with step obtain st where "barrier_step (stage s) = Some st" and "s' = s\<lparr>stage := st\<rparr>"
    by (auto simp: aggregate_step_def split: if_splits)
  with inv barrier_step_inv [of fs expected _ "stage s" st] show ?thesis
    by (simp add: aggregate_inv_def)
next
  case From_errCh
  with step have nc: "\<not> crashed (stage s)"
    by (auto simp: aggregate_step_def split: if_splits)
  from step From_errCh have none: "result s = None"
    by (cases "result s") (auto simp: aggregate_step_def split: if_splits)
  obtain err ch where r: "recv (errCh (stage s)) = Some (err, ch)"
    using step From_errCh nc none
    by (cases "recv (errCh (stage s))") (auto simp: aggregate_step_def)
  have s': "s' = after_drain_step s ((stage s)\<lparr>errCh := ch\<rparr>)
                    (drain_step (Recv_errCh err) (drain s))"
    using step From_errCh nc none r by (simp add: aggregate_step_def)
  from inv have st: "stage_inv fs expected (mset (map DicomFile.Path (dicomFiles (drain s))))
      ((stage s)\<lparr>errCh := ch\<rparr>)"
    using recv_errCh_inv [OF _ r] by (simp add: aggregate_inv_def)
  show ?thesis
    using st inv none
    by (cases err)
       (auto simp: s' after_drain_step_def aggregate_inv_def Add_def ignorable_def)
next
  case From_resultCh
  with step have nc: "\<not> crashed (stage s)"
    by (auto simp: aggregate_step_def split: if_splits)
  from step From_resultCh have none: "result s = None"
    by (cases "result s") (auto simp: aggregate_step_def split: if_splits)
  obtain rf ch where r: "recv (resultCh (stage s)) = Some (rf, ch)"
    using step From_resultCh nc none
    by (cases "recv (resultCh (stage s))") (auto simp: aggregate_step_def)
  have s': "s' = after_drain_step s ((stage s)\<lparr>resultCh := ch\<rparr>)
                    (drain_step (Recv_resultCh rf) (drain s))"
    using step From_resultCh nc none r by (simp add: aggregate_step_def)
  from inv have sinv: "stage_inv fs expected (mset (map DicomFile.Path (dicomFiles (drain s)))) (stage s)"
    by (simp add: aggregate_inv_def)
  show ?thesis
  proof (cases rf)
    case None
    from recv_resultCh_closed [OF sinv r [unfolded None]]
    have "mset (map DicomFile.Path (dicomFiles (drain s))) = expected" and "ch = resultCh (stage s)"
      by auto
    with inv show ?thesis
      by (auto simp: s' None after_drain_step_def aggregate_inv_def HasErrors_def)
  next
    case (Some f)
    from recv_resultCh_inv [OF sinv r [unfolded Some]] inv none show ?thesis
      by (simp add: s' Some after_drain_step_def aggregate_inv_def)
  qed
qed

lemma aggregate_run_inv:
  "aggregate_inv fs expected s \<Longrightarrow> aggregate_run fs as s = Some s' \<Longrightarrow>
     aggregate_inv fs expected s'"
proof (induction as arbitrary: s)
  case Nil
  then show ?case by simp
next
  case (Cons a as)
  then show ?case
    by (auto split: option.splits dest: aggregate_step_inv)
qed

lemma walkDir_no_close:
  "Walker_close_fileCh \<notin> set (fst (walkDir walk_callback path n))"
  "Walker_close_fileCh \<notin> set (fst (walkDir_entries walk_callback path ns))"
  by (induction path n and path ns rule: file_paths_file_paths_entries.induct)
     (auto simp: walk_callback_def Let_def
           split: prod.splits callback_result.splits option.splits if_splits)

lemma ends_with_close_append:
  "Walker_close_fileCh \<notin> set ops \<Longrightarrow> ends_with_close (ops @ [Walker_close_fileCh])"
  by (induction ops) (auto simp: ends_with_close_Cons)

lemma no_paths_at_start: "concat (map worker_paths (replicate n (Working []))) = []"
  by (induction n) auto

lemma stage_start_inv:
  "stage_inv fs (mset (filter (matching fs) (file_paths dir info))) {#}
     (stage_start dir (Lstat_ok info) maxConcurrency)"
proof -
  have w: "fst (fileWalker dir (Lstat_ok info)) =
             fst (walkDir walk_callback dir info) @ [Walker_close_fileCh]"
    and p: "sent_paths (fst (fileWalker dir (Lstat_ok info))) = file_paths dir info"
    using fileWalker_completes [of dir info] by (simp, blast)
  have e: "ends_with_close (fst (fileWalker dir (Lstat_ok info)))"
    unfolding w using walkDir_no_close(1) by (rule ends_with_close_append)
  have n: "0 < nat (if maxConcurrency \<le> 0 then 8 else maxConcurrency)" by simp
  show ?thesis
    using e p n
    by (simp add: stage_inv_def stage_start_def Let_def in_flight_def close_order_def
        make_chan_def no_paths_at_start list_ex_iff)
qed

lemma aggregate_discovery_exact:
  assumes "DiscoverDICOMFiles fs dir (Lstat_ok info) maxConcurrency schedule = Some s"
      and "result s = Some (files, failure)"
  shows "mset (map DicomFile.Path files) = mset (filter (matching fs) (file_paths dir info)) \<and>
         length files = length (filter (matching fs) (file_paths dir info)) \<and>
         (case failure of
            None \<Rightarrow> True
          | Some m \<Rightarrow> list_all (\<lambda>e. \<not> ignorable e) (errs m))"
proof -
  let ?expected = "mset (filter (matching fs) (file_paths dir info))"
  have "aggregate_inv fs ?expected
          \<lparr>stage = stage_start dir (Lstat_ok info) maxConcurrency, drain = drain_start, result = None\<rparr>"
    using stage_start_inv [of fs dir info maxConcurrency]
    by (simp add: aggregate_inv_def drain_start_def New_def)
  from aggregate_run_inv [OF this assms(1) [unfolded DiscoverDICOMFiles_def]] assms(2)
  have paths: "mset (map DicomFile.Path files) = ?expected"
    and errors: "case failure of None \<Rightarrow> True | Some m \<Rightarrow> list_all (\<lambda>e. \<not> ignorable e) (errs m)"
    by (simp_all add: aggregate_inv_def)
  from paths have "size (mset (map DicomFile.Path files)) = size ?expected" by (simp only:)
  then have "length files = length (filter (matching fs) (file_paths dir info))"
    by (simp only: size_mset length_map)
  with paths errors show ?thesis by simp
qed

lemma stage_drained:
  assumes inv: "stage_inv fs expected taken s"
      and "closed (resultCh s)" and "buf (resultCh s) = []"
  shows "taken = expected"
proof -
  from assms(2,3) have "recv (resultCh s) = Some (None, resultCh s)"
    by (simp add: recv_def)
  from recv_resultCh_closed [OF inv this] show ?thesis by simp
qed

lemma streaming_step_inv:
  assumes inv: "stage_inv fs expected (mset (map DicomFile.Path (from_Files s))) (running s)"
      and step: "streaming_step fs a s = Some s'"
  shows "stage_inv fs expected (mset (map DicomFile.Path (from_Files s'))) (running s')"
proof (cases a)
  case Walker
  with step obtain st where "walker_step (running s) = Some st" and "s' = s\<lparr>running := st\<rparr>"
    by (auto simp: streaming_step_def split: if_splits)
  with inv walker_step_inv [of fs expected _ "running s" st] show ?thesis by simp
next
  case (Worker i)
  with step obtain st where "worker_step fs i (running s) = Some st" and "s' = s\<lparr>running := st\<rparr>"
    by (auto simp: streaming_step_def split: if_splits)
  with inv worker_step_inv [of fs expected _ "running s" i st] show ?thesis by simp
next
  case Barrier
  with step obtain st where "barrier_step (running s) = Some st" and "s' = s\<lparr>running := st\<rparr>"
    by (auto simp: streaming_step_def split: if_splits)
  with inv barrier_step_inv [of fs expected _ "running s" st] show ?thesis by simp
next
  case From_errCh
  with step obtain v ch where r: "recv (errCh (running s)) = Some (v, ch)"
    by (cases "recv (errCh (running s))") (auto simp: streaming_step_def split: if_splits)
  from recv_errCh_inv [OF inv r] step From_errCh r show ?thesis
    by (cases v) (auto simp: streaming_step_def split: if_splits)
next
  case From_resultCh
  with step obtain v ch where r: "recv (resultCh (running s)) = Some (v, ch)"
    by (cases "recv (resultCh (running s))") (auto simp: streaming_step_def split: if_splits)
  show ?thesis
  proof (cases v)
    case None
    from recv_resultCh_closed [OF inv r [unfolded None]] have "ch = resultCh (running s)" by simp
    with step From_resultCh r None inv show ?thesis
      by (auto simp: streaming_step_def split: if_splits)
  next
    case (Some f)
    from recv_resultCh_inv [OF inv r [unfolded Some]] step From_resultCh r Some show ?thesis
      by (auto simp: streaming_step_def split: if_splits)
  qed
qed

lemma streaming_run_inv:
  "stage_inv fs expected (mset (map DicomFile.Path (from_Files s))) (running s) \<Longrightarrow>
   streaming_run fs as s = Some s' \<Longrightarrow>
   stage_inv fs expected (mset (map DicomFile.Path (from_Files s'))) (running s')"
proof (induction as arbitrary: s)
  case Nil
  then show ?case by simp
next
  case (Cons a as)
  from Cons.prems(2) obtain s1 where step: "streaming_step fs a s = Some s1"
    and rest: "streaming_run fs as s1 = Some s'"
    by (cases "streaming_step fs a s") auto
  from streaming_step_inv [OF Cons.prems(1) step] rest show ?case
    by (rule Cons.IH)
qed

text \<open>A schedule under which discovery runs to its end: one goroutine moves at a time.\<close>

lemma aggregate_run_append:
  "aggregate_run fs (as @ bs) s =
     (case aggregate_run fs as s of None \<Rightarrow> None | Some s1 \<Rightarrow> aggregate_run fs bs s1)"
  by (induction as arbitrary: s) (auto split: option.splits)

lemma body_shapes:
  "\<exists>st. dicomCheckerWorker_body fs path st0 = ([], st) \<or>
        (\<exists>err. dicomCheckerWorker_body fs path st0 = ([Send_errCh err], st)) \<or>
        (\<exists>r. dicomCheckerWorker_body fs path st0 = ([Send_resultCh r], st))"
  by (auto simp: dicomCheckerWorker_body_def split: prod.splits option.splits)

lemma replicate_update_same: "(replicate n x)[i := x] = replicate n x"
  by (cases "i < n") (simp_all add: list_update_same_conv list_update_beyond)

lemma round_send_errCh:
  assumes idle: "idle_stage n (stage s)" and none: "result s = None"
      and w: "walker (stage s) = Walker_send_errCh err # ws"
  shows "\<exists>s'. aggregate_run fs [Walker, From_errCh] s = Some s' \<and>
              idle_stage n (stage s') \<and> result s' = None \<and> walker (stage s') = ws \<and>
              walker_end (stage s') = walker_end (stage s)"
  using assms
  by (auto simp: idle_stage_def aggregate_step_def walker_step_def send_def recv_def
      after_drain_step_def)

lemma round_send_fileCh:
  assumes idle: "idle_stage n (stage s)" and none: "result s = None"
      and w: "walker (stage s) = Walker_send_fileCh path # ws"
  shows "\<exists>as s'. aggregate_run fs as s = Some s' \<and>
              idle_stage n (stage s') \<and> result s' = None \<and> walker (stage s') = ws \<and>
              walker_end (stage s') = walker_end (stage s)"
proof -
  from body_shapes [of fs path "opened (stage s)"] obtain st where
    "dicomCheckerWorker_body fs path (opened (stage s)) = ([], st) \<or>
     (\<exists>err. dicomCheckerWorker_body fs path (opened (stage s)) = ([Send_errCh err], st)) \<or>
     (\<exists>r. dicomCheckerWorker_body fs path (opened (stage s)) = ([Send_resultCh r], st))"
    by blast
  then consider
      (skipped) "dicomCheckerWorker_body fs path (opened (stage s)) = ([], st)"
    | (failed) err where "dicomCheckerWorker_body fs path (opened (stage s)) = ([Send_errCh err], st)"
    | (valid) r where "dicomCheckerWorker_body fs path (opened (stage s)) = ([Send_resultCh r], st)"
    by blast
  then show ?thesis
  proof cases
    case skipped
    have "\<exists>s'. aggregate_run fs [Walker, Worker 0] s = Some s' \<and>
              idle_stage n (stage s') \<and> result s' = None \<and> walker (stage s') = ws \<and>
              walker_end (stage s') = walker_end (stage s)"
      using idle none w skipped
      by (simp add: idle_stage_def aggregate_step_def walker_step_def worker_step_def
          send_def recv_def replicate_update_same)
    then show ?thesis by blast
  next
    case failed
    have "\<exists>s'. aggregate_run fs [Walker, Worker 0, Worker 0, From_errCh] s = Some s' \<and>
              idle_stage n (stage s') \<and> result s' = None \<and> walker (stage s') = ws \<and>
              walker_end (stage s') = walker_end (stage s)"
      using idle none w failed
      by (simp add: idle_stage_def aggregate_step_def walker_step_def worker_step_def
          send_def recv_def replicate_update_same after_drain_step_def)
    then show ?thesis by blast
  next
    case valid
    have "\<exists>s'. aggregate_run fs [Walker, Worker 0, Worker 0, From_resultCh] s = Some s' \<and>
              idle_stage n (stage s') \<and> result s' = None \<and> walker (stage s') = ws \<and>
              walker_end (stage s') = walker_end (stage s)"
      using idle none w valid
      by (simp add: idle_stage_def aggregate_step_def walker_step_def worker_step_def
          send_def recv_def replicate_update_same after_drain_step_def)
    then show ?thesis by blast
  qed
qed


lemma rounds:
  assumes "idle_stage n (stage s)" and "result s = None"
      and "walker (stage s) = ops @ rest" and "Walker_close_fileCh \<notin> set ops"
  shows "\<exists>as s'. aggregate_run fs as s = Some s' \<and>
              idle_stage n (stage s') \<and> result s' = None \<and> walker (stage s') = rest \<and>
              walker_end (stage s') = walker_end (stage s)"
  using assms
proof (induction ops arbitrary: s)
  case Nil
  have "aggregate_run fs [] s = Some s" by simp
  with Nil show ?case by (metis append_Nil)
next
  case (Cons w ops)
  have "\<exists>as s1. aggregate_run fs as s = Some s1 \<and> idle_stage n (stage s1) \<and>
          result s1 = None \<and> walker (stage s1) = ops @ rest \<and>
          walker_end (stage s1) = walker_end (stage s)"
  proof (cases w)
    case (Walker_send_errCh err)
    with Cons.prems have "walker (stage s) = Walker_send_errCh err # (ops @ rest)" by simp
    from round_send_errCh [OF Cons.prems(1,2) this, of fs] show ?thesis by blast
  next
    case (Walker_send_fileCh path)
    with Cons.prems have "walker (stage s) = Walker_send_fileCh path # (ops @ rest)" by simp
    from round_send_fileCh [OF Cons.prems(1,2) this, of fs] show ?thesis by blast
  next
    case Walker_close_fileCh
    with Cons.prems show ?thesis by simp
  qed
  then obtain as1 s1 where r1: "aggregate_run fs as1 s = Some s1"
    and i1: "idle_stage n (stage s1)" "result s1 = None" "walker (stage s1) = ops @ rest"
    and e1: "walker_end (stage s1) = walker_end (stage s)"
    by blast
  from Cons.prems(4) have "Walker_close_fileCh \<notin> set ops" by simp
  from Cons.IH [OF i1 this] obtain as2 s2 where r2: "aggregate_run fs as2 s1 = Some s2"
    and i2: "idle_stage n (stage s2)" "result s2 = None" "walker (stage s2) = rest"
    and e2: "walker_end (stage s2) = walker_end (stage s1)"
    by blast
  have "aggregate_run fs (as1 @ as2) s = Some s2"
    by (simp add: aggregate_run_append r1 r2)
  with i2 e1 e2 show ?case by (metis (no_types))
qed

lemma workers_return:
  assumes "\<not> crashed (stage s)"
      and "closed (fileCh (stage s))" and "buf (fileCh (stage s)) = []"
      and "workers (stage s) = replicate k Worker_done @ replicate m (Working [])"
  shows "aggregate_run fs (map Worker [k..<k + m]) s =
           Some (s\<lparr>stage := (stage s)\<lparr>workers := replicate (k + m) Worker_done\<rparr>\<rparr>)"
  using assms
proof (induction m arbitrary: k s)
  case 0
  then have "s\<lparr>stage := (stage s)\<lparr>workers := replicate k Worker_done\<rparr>\<rparr> = s" by simp
  then show ?case by simp
next
  case (Suc m)
  let ?s1 = "s\<lparr>stage := (stage s)\<lparr>workers := replicate (Suc k) Worker_done @ replicate m (Working [])\<rparr>\<rparr>"
  have upd: "(workers (stage s))[k := Worker_done] =
             replicate (Suc k) Worker_done @ replicate m (Working [])"
    unfolding Suc.prems(4) by (simp add: list_update_append replicate_append_same)
  have nth: "workers (stage s) ! k = Working []"
    unfolding Suc.prems(4) by (simp add: nth_append)
  have len: "k < length (workers (stage s))"
    unfolding Suc.prems(4) by simp
  have step: "aggregate_step fs (Worker k) s = Some ?s1"
    using Suc.prems(1-3) upd nth len
    by (simp add: aggregate_step_def worker_step_def recv_def)
  have rest: "aggregate_run fs (map Worker [Suc k..<Suc k + m]) ?s1 =
      Some (?s1\<lparr>stage := (stage ?s1)\<lparr>workers := replicate (Suc k + m) Worker_done\<rparr>\<rparr>)"
    using Suc.prems by (intro Suc.IH) simp_all
  have "[k..<k + Suc m] = k # [Suc k..<Suc k + m]"
    by (simp add: upt_rec)
  with step rest show ?case by simp
qed

lemma last_round:
  assumes "idle_stage n (stage s)" and "result s = None"
      and "walker (stage s) = [Walker_close_fileCh]"
  shows "\<exists>as s'. aggregate_run fs as s = Some s' \<and> result s' \<noteq> None"
proof -
  let ?s1 = "s\<lparr>stage := (stage s)\<lparr>fileCh := close_chan (fileCh (stage s)), walker := []\<rparr>\<rparr>"
  let ?s2 = "?s1\<lparr>stage := (stage ?s1)\<lparr>workers := replicate (0 + n) Worker_done\<rparr>\<rparr>"
  have 1: "aggregate_run fs [Walker] s = Some ?s1"
    using assms by (simp add: idle_stage_def aggregate_step_def walker_step_def)
  have 2: "aggregate_run fs (map Worker [0..<0 + n]) ?s1 = Some ?s2"
    using assms by (intro workers_return) (simp_all add: idle_stage_def close_chan_def)
  have 3: "\<exists>s'. aggregate_run fs [Barrier, Barrier, Barrier, From_resultCh] ?s2 = Some s' \<and>
                 result s' \<noteq> None"
    using assms
    by (simp add: idle_stage_def aggregate_step_def barrier_step_def close_chan_def recv_def
        after_drain_step_def list_all_length)
  then obtain s' where 4: "aggregate_run fs [Barrier, Barrier, Barrier, From_resultCh] ?s2 = Some s'"
    and 5: "result s' \<noteq> None" by blast
  have "aggregate_run fs ([Walker] @ map Worker [0..<0 + n] @ [Barrier, Barrier, Barrier, From_resultCh]) s = Some s'"
    by (simp only: aggregate_run_append 1 2 4 option.case)
  with 5 show ?thesis by blast
qed


lemma streaming_run_append:
  "streaming_run fs (as @ bs) s =
     (case streaming_run fs as s of None \<Rightarrow> None | Some s1 \<Rightarrow> streaming_run fs bs s1)"
  by (induction as arbitrary: s) (auto split: option.splits)

lemma streaming_round_send_errCh:
  assumes idle: "idle_stage n (running s)"
      and w: "walker (running s) = Walker_send_errCh err # ws"
  shows "\<exists>s'. streaming_run fs [Walker, From_errCh] s = Some s' \<and>
              idle_stage n (running s') \<and> walker (running s') = ws \<and>
              walker_end (running s') = walker_end (running s)"
  using assms
  by (simp add: idle_stage_def streaming_step_def walker_step_def send_def recv_def)

lemma streaming_round_send_fileCh:
  assumes idle: "idle_stage n (running s)"
      and w: "walker (running s) = Walker_send_fileCh path # ws"
  shows "\<exists>as s'. streaming_run fs as s = Some s' \<and>
              idle_stage n (running s') \<and> walker (running s') = ws \<and>
              walker_end (running s') = walker_end (running s)"
proof -
  from body_shapes [of fs path "opened (running s)"] obtain st where
    "dicomCheckerWorker_body fs path (opened (running s)) = ([], st) \<or>
     (\<exists>err. dicomCheckerWorker_body fs path (opened (running s)) = ([Send_errCh err], st)) \<or>
     (\<exists>r. dicomCheckerWorker_body fs path (opened (running s)) = ([Send_resultCh r], st))"
    by blast
  then consider
      (skipped) "dicomCheckerWorker_body fs path (opened (running s)) = ([], st)"
    | (failed) err where "dicomCheckerWorker_body fs path (opened (running s)) = ([Send_errCh err], st)"
    | (valid) r where "dicomCheckerWorker_body fs path (opened (running s)) = ([Send_resultCh r], st)"
    by blast
  then show ?thesis
  proof cases
    case skipped
    have "\<exists>s'. streaming_run fs [Walker, Worker 0] s = Some s' \<and>
              idle_stage n (running s') \<and> walker (running s') = ws \<and>
              walker_end (running s') = walker_end (running s)"
      using idle w skipped
      by (simp add: idle_stage_def streaming_step_def walker_step_def worker_step_def
          send_def recv_def replicate_update_same)
    then show ?thesis by blast
  next
    case failed
    have "\<exists>s'. streaming_run fs [Walker, Worker 0, Worker 0, From_errCh] s = Some s' \<and>
              idle_stage n (running s') \<and> walker (running s') = ws \<and>
              walker_end (running s') = walker_end (running s)"
      using idle w failed
      by (simp add: idle_stage_def streaming_step_def walker_step_def worker_step_def
          send_def recv_def replicate_update_same)
    then show ?thesis by blast
  next
    case valid
    have "\<exists>s'. streaming_run fs [Walker, Worker 0, Worker 0, From_resultCh] s = Some s' \<and>
              idle_stage n (running s') \<and> walker (running s') = ws \<and>
              walker_end (running s') = walker_end (running s)"
      using idle w valid
      by (simp add: idle_stage_def streaming_step_def walker_step_def worker_step_def
          send_def recv_def replicate_update_same)
    then show ?thesis by blast
  qed
qed

lemma streaming_rounds:
  assumes "idle_stage n (running s)"
      and "walker (running s) = ops @ rest" and "Walker_close_fileCh \<notin> set ops"
  shows "\<exists>as s'. streaming_run fs as s = Some s' \<and>
              idle_stage n (running s') \<and> walker (running s') = rest \<and>
              walker_end (running s') = walker_end (running s)"
  using assms
proof (induction ops arbitrary: s)
  case Nil
  have "streaming_run fs [] s = Some s" by simp
  with Nil show ?case by (metis append_Nil)
next
  case (Cons w ops)
  have "\<exists>as s1. streaming_run fs as s = Some s1 \<and> idle_stage n (running s1) \<and>
          walker (running s1) = ops @ rest \<and>
          walker_end (running s1) = walker_end (running s)"
  proof (cases w)
    case (Walker_send_errCh err)
    with Cons.prems have "walker (running s) = Walker_send_errCh err # (ops @ rest)" by simp
    from streaming_round_send_errCh [OF Cons.prems(1) this, of fs] show ?thesis by blast
  next
    case (Walker_send_fileCh path)
    with Cons.prems have "walker (running s) = Walker_send_fileCh path # (ops @ rest)" by simp
    from streaming_round_send_fileCh [OF Cons.prems(1) this, of fs] show ?thesis by blast
  next
    case Walker_close_fileCh
    with Cons.prems show ?thesis by simp
  qed
  then obtain as1 s1 where r1: "streaming_run fs as1 s = Some s1"
    and i1: "idle_stage n (running s1)" "walker (running s1) = ops @ rest"
    and e1: "walker_end (running s1) = walker_end (running s)"
    by blast
  from Cons.prems(3) have "Walker_close_fileCh \<notin> set ops" by simp
  from Cons.IH [OF i1 this] obtain as2 s2 where r2: "streaming_run fs as2 s1 = Some s2"
    and i2: "idle_stage n (running s2)" "walker (running s2) = rest"
    and e2: "walker_end (running s2) = walker_end (running s1)"
    by blast
  have "streaming_run fs (as1 @ as2) s = Some s2"
    by (simp add: streaming_run_append r1 r2)
  with i2 e1 e2 show ?case by (metis (no_types))
qed

lemma streaming_workers_return:
  assumes "\<not> crashed (running s)"
      and "closed (fileCh (running s))" and "buf (fileCh (running s)) = []"
      and "workers (running s) = replicate k Worker_done @ replicate m (Working [])"
  shows "streaming_run fs (map Worker [k..<k + m]) s =
           Some (s\<lparr>running := (running s)\<lparr>workers := replicate (k + m) Worker_done\<rparr>\<rparr>)"
  using assms
proof (induction m arbitrary: k s)
  case 0
  then have "s\<lparr>running := (running s)\<lparr>workers := replicate k Worker_done\<rparr>\<rparr> = s" by simp
  then show ?case by simp
next
  case (Suc m)
  let ?s1 = "s\<lparr>running := (running s)\<lparr>workers := replicate (Suc k) Worker_done @ replicate m (Working [])\<rparr>\<rparr>"
  have upd: "(workers (running s))[k := Worker_done] =
             replicate (Suc k) Worker_done @ replicate m (Working [])"
    unfolding Suc.prems(4) by (simp add: list_update_append replicate_append_same)
  have nth: "workers (running s) ! k = Working []"
    unfolding Suc.prems(4) by (simp add: nth_append)
  have len: "k < length (workers (running s))"
    unfolding Suc.prems(4) by simp
  have step: "streaming_step fs (Worker k) s = Some ?s1"
    using Suc.prems(1-3) upd nth len
    by (simp add: streaming_step_def worker_step_def recv_def)
  have rest: "streaming_run fs (map Worker [Suc k..<Suc k + m]) ?s1 =
      Some (?s1\<lparr>running := (running ?s1)\<lparr>workers := replicate (Suc k + m) Worker_done\<rparr>\<rparr>)"
    using Suc.prems by (intro Suc.IH) simp_all
  have "[k..<k + Suc m] = k # [Suc k..<Suc k + m]"
    by (simp add: upt_rec)
  with step rest show ?case by simp
qed

lemma streaming_last_round:
  assumes "idle_stage n (running s)"
      and "walker (running s) = [Walker_close_fileCh]"
  shows "\<exists>as s'. streaming_run fs as s = Some s' \<and>
            closed (resultCh (running s')) \<and> buf (resultCh (running s')) = []"
proof -
  let ?s1 = "s\<lparr>running := (running s)\<lparr>fileCh := close_chan (fileCh (running s)), walker := []\<rparr>\<rparr>"
  let ?s2 = "?s1\<lparr>running := (running ?s1)\<lparr>workers := replicate (0 + n) Worker_done\<rparr>\<rparr>"
  have 1: "streaming_run fs [Walker] s = Some ?s1"
    using assms by (simp add: idle_stage_def streaming_step_def walker_step_def)
  have 2: "streaming_run fs (map Worker [0..<0 + n]) ?s1 = Some ?s2"
    using assms by (intro streaming_workers_return) (simp_all add: idle_stage_def close_chan_def)
  have 3: "\<exists>s'. streaming_run fs [Barrier, Barrier, Barrier] ?s2 = Some s' \<and>
                 closed (resultCh (running s')) \<and> buf (resultCh (running s')) = []"
    using assms
    by (simp add: idle_stage_def streaming_step_def barrier_step_def close_chan_def
        list_all_length)
  then obtain s' where 4: "streaming_run fs [Barrier, Barrier, Barrier] ?s2 = Some s'"
    and 5: "closed (resultCh (running s'))" "buf (resultCh (running s')) = []" by blast
  have "streaming_run fs ([Walker] @ map Worker [0..<0 + n] @ [Barrier, Barrier, Barrier]) s = Some s'"
    by (simp only: streaming_run_append 1 2 4 option.case)
  with 5 show ?thesis by blast
qed

lemma stage_start_idle:
  "idle_stage (nat (if maxConcurrency \<le> 0 then 8 else maxConcurrency))
     (stage_start dir tree maxConcurrency)"
  by (simp add: idle_stage_def stage_start_def Let_def make_chan_def)

lemma aggregate_discovery_returns:
  "\<exists>schedule s. DiscoverDICOMFiles fs dir (Lstat_ok info) maxConcurrency schedule = Some s \<and>
                 result s \<noteq> None"
proof -
  let ?n = "nat (if maxConcurrency \<le> 0 then 8 else maxConcurrency)"
  let ?s0 = "\<lparr>stage = stage_start dir (Lstat_ok info) maxConcurrency,
              drain = drain_start, result = None\<rparr>"
  have idle: "idle_stage ?n (stage ?s0)" using stage_start_idle by simp
  have w: "walker (stage ?s0) = fst (walkDir walk_callback dir info) @ [Walker_close_fileCh]"
    using fileWalker_completes [of dir info] by (simp add: stage_start_def Let_def)
  from rounds [OF idle _ w walkDir_no_close(1), of fs]
  obtain as1 s1 where r1: "aggregate_run fs as1 ?s0 = Some s1"
    and i1: "idle_stage ?n (stage s1)" "result s1 = None"
            "walker (stage s1) = [Walker_close_fileCh]"
    by auto
  from last_round [OF i1, of fs]
  obtain as2 s2 where r2: "aggregate_run fs as2 s1 = Some s2" and res: "result s2 \<noteq> None"
    by blast
  have "DiscoverDICOMFiles fs dir (Lstat_ok info) maxConcurrency (as1 @ as2) = Some s2"
    by (simp add: DiscoverDICOMFiles_def aggregate_run_append r1 r2)
  with res show ?thesis by blast
qed

lemma streaming_discovery_finishes:
  "\<exists>schedule t. DiscoverDICOMFiles_streaming fs dir (Lstat_ok info) maxConcurrency schedule = Some t \<and>
                 closed (resultCh (running t)) \<and> buf (resultCh (running t)) = []"
proof -
  let ?n = "nat (if maxConcurrency \<le> 0 then 8 else maxConcurrency)"
  let ?s0 = "\<lparr>running = stage_start dir (Lstat_ok info) maxConcurrency,
              from_Errors = [], from_Files = []\<rparr>"
  have idle: "idle_stage ?n (running ?s0)" using stage_start_idle by simp
  have w: "walker (running ?s0) = fst (walkDir walk_callback dir info) @ [Walker_close_fileCh]"
    using fileWalker_completes [of dir info] by (simp add: stage_start_def Let_def)
  from streaming_rounds [OF idle w walkDir_no_close(1), of fs]
  obtain as1 s1 where r1: "streaming_run fs as1 ?s0 = Some s1"
    and i1: "idle_stage ?n (running s1)" "walker (running s1) = [Walker_close_fileCh]"
    by auto
  from streaming_last_round [OF i1, of fs]
  obtain as2 s2 where r2: "streaming_run fs as2 s1 = Some s2"
    and res: "closed (resultCh (running s2))" "buf (resultCh (running s2)) = []"
    by blast
  have "DiscoverDICOMFiles_streaming fs dir (Lstat_ok info) maxConcurrency (as1 @ as2) = Some s2"
    by (simp add: DiscoverDICOMFiles_streaming_def streaming_run_append r1 r2)
  with res show ?thesis by blast
qed

lemma streaming_discovery_exact:
  assumes run: "DiscoverDICOMFiles_streaming fs dir (Lstat_ok info) maxConcurrency schedule = Some t"
      and c: "closed (resultCh (running t))" and b: "buf (resultCh (running t)) = []"
  shows "mset (map DicomFile.Path (from_Files t)) = mset (filter (matching fs) (file_paths dir info)) \<and>
         length (from_Files t) = length (filter (matching fs) (file_paths dir info))"
proof -
  let ?expected = "mset (filter (matching fs) (file_paths dir info))"
  have "stage_inv fs ?expected (mset (map DicomFile.Path (from_Files t))) (running t)"
    using streaming_run_inv [OF _ run [unfolded DiscoverDICOMFiles_streaming_def]]
          stage_start_inv [of fs dir info maxConcurrency]
    by simp
  from stage_drained [OF this c b]
  have paths: "mset (map DicomFile.Path (from_Files t)) = ?expected" .
  from paths have "size (mset (map DicomFile.Path (from_Files t))) = size ?expected"
    by (simp only:)
  then have "length (from_Files t) = length (filter (matching fs) (file_paths dir info))"
    by (simp only: size_mset length_map)
  with paths show ?thesis by simp
qed

text \<open>
  C2, as amended.  For every directory that can be walked: aggregate discovery returns
  under some schedule of the goroutines and, under every schedule, when it returns, the
  files it returns are exactly the matching files of the tree (N of them) and the
  failure it returns holds no ignorable error; in streaming mode the file channel gets
  closed and drained under some schedule and, under every schedule, once it is closed
  and drained, the files the caller received are exactly the matching files of the tree.
\<close>

theorem discovery_surfaces_matching_files:
  "(\<exists>schedule s.
      DiscoverDICOMFiles fs dir (Lstat_ok info) maxConcurrency schedule = Some s \<and>
      result s \<noteq> None) \<and>
   (\<forall>schedule s files failure.
      DiscoverDICOMFiles fs dir (Lstat_ok info) maxConcurrency schedule = Some s \<longrightarrow>
      result s = Some (files, failure) \<longrightarrow>
        mset (map DicomFile.Path files) = mset (filter (matching fs) (file_paths dir info)) \<and>
        length files = length (filter (matching fs) (file_paths dir info)) \<and>
        (case failure of
           None \<Rightarrow> True
         | Some m \<Rightarrow> list_all (\<lambda>e. \<not> ignorable e) (errs m))) \<and>
   (\<exists>schedule t.
      DiscoverDICOMFiles_streaming fs dir (Lstat_ok info) maxConcurrency schedule = Some t \<and>
      closed (resultCh (running t)) \<and> buf (resultCh (running t)) = []) \<and>
   (\<forall>schedule t.
      DiscoverDICOMFiles_streaming fs dir (Lstat_ok info) maxConcurrency schedule = Some t \<longrightarrow>
      closed (resultCh (running t)) \<longrightarrow> buf (resultCh (running t)) = [] \<longrightarrow>
        mset (map DicomFile.Path (from_Files t)) = mset (filter (matching fs) (file_paths dir info)) \<and>
        length (from_Files t) = length (filter (matching fs) (file_paths dir info)))"
  using aggregate_discovery_returns [of fs dir info maxConcurrency]
        aggregate_discovery_exact [of fs dir info maxConcurrency]
        streaming_discovery_finishes [of fs dir info maxConcurrency]
        streaming_discovery_exact [of fs dir info maxConcurrency]
  by blast

theorem discovery_surfaces_matching_files_witness:
  "map_option result
     (DiscoverDICOMFiles example_fs ''/d'' (Lstat_ok example_tree) 2 example_schedule) =
     Some (Some ([\<lparr>DicomFile.Path = ''/d/a.dcm'', Handle = Some 0\<rparr>], None)) \<and>
   filter (matching example_fs) (file_paths ''/d'' example_tree) = [''/d/a.dcm''] \<and>
   map_option (\<lambda>t. (closed (resultCh (running t)), buf (resultCh (running t)), from_Files t))
     (DiscoverDICOMFiles_streaming example_fs ''/d'' (Lstat_ok example_tree) 2 example_schedule) =
     Some (True, [], [\<lparr>DicomFile.Path = ''/d/a.dcm'', Handle = Some 0\<rparr>])"
proof -
  have a: "map_option result
     (DiscoverDICOMFiles example_fs ''/d'' (Lstat_ok example_tree) 2 example_schedule) =
     Some (Some ([\<lparr>DicomFile.Path = ''/d/a.dcm'', Handle = Some 0\<rparr>], None))"
    by code_simp
  have b: "map_option (\<lambda>t. (closed (resultCh (running t)), buf (resultCh (running t)), from_Files t))
     (DiscoverDICOMFiles_streaming example_fs ''/d'' (Lstat_ok example_tree) 2 example_schedule) =
     Some (True, [], [\<lparr>DicomFile.Path = ''/d/a.dcm'', Handle = Some 0\<rparr>])"
    by code_simp
  from a obtain s where s: "DiscoverDICOMFiles example_fs ''/d'' (Lstat_ok example_tree) 2 example_schedule = Some s"
    and r: "result s = Some ([\<lparr>DicomFile.Path = ''/d/a.dcm'', Handle = Some 0\<rparr>], None)"
    by auto
  from b obtain t where t: "DiscoverDICOMFiles_streaming example_fs ''/d'' (Lstat_ok example_tree) 2 example_schedule = Some t"
    and c: "closed (resultCh (running t))" "buf (resultCh (running t)) = []"
    and f: "from_Files t = [\<lparr>DicomFile.Path = ''/d/a.dcm'', Handle = Some 0\<rparr>]"
    by auto
  note main = discovery_surfaces_matching_files [of example_fs "''/d''" example_tree 2]
  from main [THEN conjunct2, THEN conjunct1, rule_format, OF s r]
  have "mset (filter (matching example_fs) (file_paths ''/d'' example_tree)) = {#''/d/a.dcm''#}"
    by simp
  moreover from main [THEN conjunct2, THEN conjunct2, THEN conjunct2, rule_format, OF t c]
  have "length (filter (matching example_fs) (file_paths ''/d'' example_tree)) = 1"
    by (simp add: f)
  ultimately have "filter (matching example_fs) (file_paths ''/d'' example_tree) = [''/d/a.dcm'']"
    by (metis mset_single_iff_right)
  with a b show ?thesis by simp
qed

text \<open>
  The claim as stated fails in streaming mode, where nothing filters: for a directory
  with the one file \<open>b.txt\<close> of 23 bytes, the checker worker sends the too-small error on the
  error channel and the caller receives it; \<open>main\<close> counts such an error like any other.
\<close>

theorem streaming_surfaces_ignorable_error_counterexample:
  "map_option from_Errors
     (DiscoverDICOMFiles_streaming example_fs ''/d'' (Lstat_ok small_tree) 1 small_schedule) =
     Some [ErrorFileTooSmallToBeDICOM] \<and>
   errorCount (snd (main_loop [Case_discovery_Errors] main_example)) = 1"
  by code_simp

section \<open>The order in which a stage closes its channels\<close>

lemma walker_step_order: "close_order s \<Longrightarrow> walker_step s = Some s' \<Longrightarrow> close_order s'"
  by (auto simp: walker_step_def close_order_def send_def close_chan_def
      split: list.splits walker_op.splits goroutine_end.splits if_splits)

lemma worker_step_order:
  "close_order s \<Longrightarrow> worker_step fs i s = Some s' \<Longrightarrow> close_order s'"
  by (auto simp: worker_step_def close_order_def send_def recv_def
      split: list.splits worker.splits worker_op.splits option.splits prod.splits if_splits)

lemma barrier_step_order: "close_order s \<Longrightarrow> barrier_step s = Some s' \<Longrightarrow> close_order s'"
  by (auto simp: barrier_step_def close_order_def close_chan_def
      split: barrier_pc.splits if_splits)

lemma recv_closed: "recv c = Some (v, ch) \<Longrightarrow> closed ch = closed c"
  by (auto simp: recv_def split: list.splits if_splits)

lemma aggregate_step_order:
  assumes "close_order (stage s)" and "aggregate_step fs a s = Some s'"
  shows "close_order (stage s')"
proof (cases a)
  case Walker
  with assms show ?thesis
    by (auto simp: aggregate_step_def split: if_splits dest: walker_step_order)
next
  case (Worker i)
  with assms show ?thesis
    by (auto simp: aggregate_step_def split: if_splits dest: worker_step_order)
next
  case Barrier
  with assms show ?thesis
    by (auto simp: aggregate_step_def split: if_splits dest: barrier_step_order)
next
  case From_errCh
  with assms show ?thesis
    by (auto simp: aggregate_step_def after_drain_step_def close_order_def
        split: if_splits option.splits sum.splits dest: recv_closed)
next
  case From_resultCh
  with assms show ?thesis
    by (auto simp: aggregate_step_def after_drain_step_def close_order_def
        split: if_splits option.splits sum.splits dest: recv_closed)
qed

lemma aggregate_run_order:
  "close_order (stage s) \<Longrightarrow> aggregate_run fs as s = Some s' \<Longrightarrow> close_order (stage s')"
proof (induction as arbitrary: s)
  case Nil
  then show ?case by simp
next
  case (Cons a as)
  from Cons.prems(2) obtain s1 where step: "aggregate_step fs a s = Some s1"
    and rest: "aggregate_run fs as s1 = Some s'"
    by (cases "aggregate_step fs a s") auto
  from aggregate_step_order [OF Cons.prems(1) step] rest show ?case
    by (rule Cons.IH)
qed

lemma errCh_closes_first:
  assumes "DiscoverDICOMFiles fs dir tree maxConcurrency schedule = Some s"
      and "closed (resultCh (stage s))"
  shows "closed (errCh (stage s))"
proof -
  have "close_order (stage_start dir tree maxConcurrency)"
    by (simp add: close_order_def stage_start_def Let_def make_chan_def)
  from aggregate_run_order [OF _ assms(1) [unfolded DiscoverDICOMFiles_def]] this
  have "close_order (stage s)" by simp
  with assms(2) show ?thesis by (simp add: close_order_def)
qed

text \<open>
  C5 asks that the error channel closes before the result channel, so that a consumer
  that leaves when the result channel is closed cannot lose a buffered error.  The order
  holds (\<open>errCh_closes_first\<close>), the consequence does not: in the drain loop of aggregate
  discovery both cases of \<open>select\<close> can proceed once both channels are closed, and when
  \<open>select\<close> takes the closed result channel the loop returns although an error is still
  in the buffer of the error channel.  Here the one file of the directory cannot be
  opened; its error is sent, both channels are closed, and the loop returns no files and
  a nil failure with the error still buffered.
\<close>

theorem aggregate_drain_loses_buffered_error:
  "map_option
     (\<lambda>s. (result s, buf (errCh (stage s)), closed (errCh (stage s)), closed (resultCh (stage s))))
     (DiscoverDICOMFiles example_fs ''/d'' (Lstat_ok locked_tree) 1 losing_schedule) =
   Some (Some ([], None), [OtherError ''open /d/locked: permission denied''], True, True)"
  by code_simp

end
